theory Spec2Isabelle
  imports
    Main
    "HOL-Library.Char_ord"
    "HOL-Library.List_Lexorder"
    "HOL-Library.Product_Lexorder"
begin

section \<open>Customer case analysis dashboard: the data model\<close>

text \<open>
  The program is one script, \<^verbatim>\<open>app.py\<close>: it reads a CSV file into a pandas data frame,
  cleans it (\<^verbatim>\<open>load_and_clean_data\<close>), and then computes five aggregations, each
  handed to a chart. The embedding below follows the script line by line. The pandas
  operations the script calls are written out as list functions, each with the pandas
  behaviour it stands for in its comment.
\<close>

subsection \<open>Timestamps and cells\<close>

text \<open>
  A pandas \<^verbatim>\<open>Timestamp\<close>: calendar year, calendar month, and the offset of the instant
  inside that month (day and time of day). Chronological order is the lexicographic
  order of the three.
\<close>

datatype timestamp = Timestamp (year: nat) (month: nat) (offset: nat)

definition chron_key :: "timestamp \<Rightarrow> nat \<times> nat \<times> nat" where
  "chron_key t = (year t, month t, offset t)"

text \<open>
  The timestamps pandas can hold at nanosecond resolution lie in the years 1677 to 2262;
  a month is 1 to 12.
\<close>

definition valid_ts :: "timestamp \<Rightarrow> bool" where
  "valid_ts t \<longleftrightarrow> 1677 \<le> year t \<and> year t \<le> 2262 \<and> 1 \<le> month t \<and> month t \<le> 12"

text \<open>
  A cell of the table: absent (\<^verbatim>\<open>NaN\<close>, \<^verbatim>\<open>NaT\<close>), a string, a number, or a timestamp.
  The script never computes with a number, it only compares cells, so numbers are
  integers here.
\<close>

datatype cell = NA | Str string | Num int | Date timestamp

text \<open>
  A data frame: the column names in order, and the rows, each row holding one cell per
  column in the order of the names. Row labels (the index) are left out: no operation
  of the script reads them.
\<close>

record frame =
  columns :: "string list"
  rows :: "cell list list"

text \<open>
  What \<^verbatim>\<open>read_csv\<close> guarantees of a table: the column names differ from each other
  (repeated names of the header are renamed), and every row has a cell for each
  column.
\<close>

definition wf_frame :: "frame \<Rightarrow> bool" where
  "wf_frame df \<longleftrightarrow>
     distinct (columns df) \<and> list_all (\<lambda>r. length r = length (columns df)) (rows df)"

datatype exn = FileNotFoundError | PermissionError | ParserError
  | KeyError string | AttributeError | ValueError

subsection \<open>Decimal strings\<close>

definition digit_char :: "nat \<Rightarrow> char" where
  "digit_char d = ''0123456789'' ! d"

fun index_of :: "'a \<Rightarrow> 'a list \<Rightarrow> nat" where
  "index_of x [] = 0"
| "index_of x (y # ys) = (if x = y then 0 else Suc (index_of x ys))"

definition is_digit :: "char \<Rightarrow> bool" where
  "is_digit c \<longleftrightarrow> c \<in> set ''0123456789''"

definition digit_val :: "char \<Rightarrow> nat" where
  "digit_val c = index_of c ''0123456789''"

text \<open>Python's \<^verbatim>\<open>str(n)\<close> for a non-negative integer.\<close>

fun str_nat :: "nat \<Rightarrow> string" where
  "str_nat n = (if n < 10 then [digit_char n] else str_nat (n div 10) @ [digit_char (n mod 10)])"

declare str_nat.simps [simp del]

definition zfill :: "nat \<Rightarrow> string \<Rightarrow> string" where
  "zfill w s = replicate (w - length s) (CHR ''0'') @ s"

definition nat_of_digits :: "string \<Rightarrow> nat" where
  "nat_of_digits s = foldl (\<lambda>a c. 10 * a + digit_val c) 0 s"

subsection \<open>Column access\<close>

definition col_values :: "frame \<Rightarrow> string \<Rightarrow> cell list" where
  "col_values df c = map (\<lambda>r. r ! index_of c (columns df)) (rows df)"

text \<open>\<^verbatim>\<open>df[c]\<close>: the column's values, or \<^verbatim>\<open>KeyError\<close> when there is no such column.\<close>

definition get_col :: "frame \<Rightarrow> string \<Rightarrow> exn + cell list" where
  "get_col df c = (if c \<in> set (columns df) then Inr (col_values df c) else Inl (KeyError c))"

text \<open>
  \<^verbatim>\<open>df[c] = vs\<close>: an existing column is overwritten in place, a new one is appended as
  the last column. The script only assigns series computed from the frame itself, so
  \<open>vs\<close> has one value per row.
\<close>

definition set_col :: "frame \<Rightarrow> string \<Rightarrow> cell list \<Rightarrow> frame" where
  "set_col df c vs =
     (if c \<in> set (columns df)
      then df\<lparr>rows := map2 (\<lambda>r v. r[index_of c (columns df) := v]) (rows df) vs\<rparr>
      else df\<lparr>columns := columns df @ [c], rows := map2 (\<lambda>r v. r @ [v]) (rows df) vs\<rparr>)"

definition drop_at :: "nat \<Rightarrow> 'a list \<Rightarrow> 'a list" where
  "drop_at i xs = take i xs @ drop (Suc i) xs"

text \<open>\<^verbatim>\<open>df.drop(columns=[c], inplace=True)\<close> for a column that exists.\<close>

definition drop_col :: "frame \<Rightarrow> string \<Rightarrow> frame" where
  "drop_col df c =
     df\<lparr>columns := drop_at (index_of c (columns df)) (columns df),
        rows := map (drop_at (index_of c (columns df))) (rows df)\<rparr>"

section \<open>The cleaner\<close>

subsection \<open>Lines 17 and 18: the opened date\<close>

text \<open>
  \<^verbatim>\<open>pd.to_datetime(..., errors='coerce')\<close> on one value: an absent value stays absent,
  a timestamp stays as it is, and any other value goes through the date parser of
  pandas, which is no part of this repository and is the parameter \<open>parse\<close>: a value
  it rejects becomes absent.
\<close>

fun to_datetime_coerce :: "(cell \<Rightarrow> timestamp option) \<Rightarrow> cell \<Rightarrow> cell" where
  "to_datetime_coerce parse NA = NA"
| "to_datetime_coerce parse (Date t) = Date t"
| "to_datetime_coerce parse c = (case parse c of None \<Rightarrow> NA | Some t \<Rightarrow> Date t)"

text \<open>\<^verbatim>\<open>df.dropna(subset=[c], inplace=True)\<close>: rows whose value in column \<open>c\<close> is absent go.\<close>

definition dropna_subset :: "frame \<Rightarrow> string \<Rightarrow> frame" where
  "dropna_subset df c = df\<lparr>rows := filter (\<lambda>r. r ! index_of c (columns df) \<noteq> NA) (rows df)\<rparr>"

definition parse_opened_date :: "(cell \<Rightarrow> timestamp option) \<Rightarrow> frame \<Rightarrow> exn + frame" where
  "parse_opened_date parse df =
     (case get_col df ''Opened Date'' of
        Inl e \<Rightarrow> Inl e
      | Inr od \<Rightarrow>
          Inr (dropna_subset
                 (set_col df ''Opened Date'' (map (to_datetime_coerce parse) od))
                 ''Opened Date''))"

subsection \<open>Lines 21 to 23: the Store column\<close>

text \<open>\<^verbatim>\<open>s.isnull().all()\<close>: true on an empty series.\<close>

definition isnull_all :: "cell list \<Rightarrow> bool" where
  "isnull_all vs = list_all (\<lambda>v. v = NA) vs"

definition drop_store :: "frame \<Rightarrow> frame \<times> string list" where
  "drop_store df =
     (if ''Store'' \<in> set (columns df) \<and> isnull_all (col_values df ''Store'')
      then (drop_col df ''Store'', [''Dropped 'Store' column due to all null values.''])
      else (df, []))"

subsection \<open>Lines 26 to 32: duplicate rows\<close>

text \<open>
  \<^verbatim>\<open>drop_duplicates\<close> keeps the first row of every group of equal rows, in order; two
  absent cells count as equal.
\<close>

fun keep_first :: "'a list \<Rightarrow> 'a list \<Rightarrow> 'a list" where
  "keep_first seen [] = []"
| "keep_first seen (x # xs) =
     (if x \<in> set seen then keep_first seen xs else x # keep_first (x # seen) xs)"

definition drop_duplicates :: "frame \<Rightarrow> frame" where
  "drop_duplicates df = df\<lparr>rows := keep_first [] (rows df)\<rparr>"

definition remove_duplicates :: "frame \<Rightarrow> frame \<times> string list" where
  "remove_duplicates df =
     (let initial_rows = length (rows df);
          df' = drop_duplicates df;
          rows_after_duplicates = length (rows df')
      in if initial_rows > rows_after_duplicates
         then (df', [''Removed '' @ str_nat (initial_rows - rows_after_duplicates)
                      @ '' duplicate rows.''])
         else (df', [''No duplicate rows found.'']))"

subsection \<open>Lines 16 to 34 together\<close>

text \<open>
  The cleaning pass on the table that was read: the cleaned frame and the notices sent
  to the sidebar, or the exception of line 17 when there is no opened-date column.
\<close>

definition clean :: "(cell \<Rightarrow> timestamp option) \<Rightarrow> frame \<Rightarrow> exn + frame \<times> string list" where
  "clean parse df =
     (case parse_opened_date parse df of
        Inl e \<Rightarrow> Inl e
      | Inr df1 \<Rightarrow>
          (case drop_store df1 of (df2, notes1) \<Rightarrow>
             (case remove_duplicates df2 of (df3, notes2) \<Rightarrow>
                Inr (df3, notes1 @ notes2))))"

section \<open>The aggregations\<close>

subsection \<open>Frequency tables (lines 54, 67, 80, 94)\<close>

text \<open>
  \<^verbatim>\<open>Series.value_counts()\<close> with its defaults: absent values are not counted
  (\<^verbatim>\<open>dropna=True\<close>); every other distinct value gets the number of rows holding it;
  the pairs are sorted by descending count. Values with equal counts are kept here in
  the order of their first row; no statement below depends on that order.
\<close>

definition value_counts :: "cell list \<Rightarrow> (cell \<times> nat) list" where
  "value_counts vs =
     sort_key (\<lambda>(v, n). - int n)
       (map (\<lambda>v. (v, count_list vs v)) (keep_first [] (filter (\<lambda>v. v \<noteq> NA) vs)))"

definition status_counts :: "frame \<Rightarrow> exn + (cell \<times> nat) list" where
  "status_counts df =
     (case get_col df ''Status'' of Inl e \<Rightarrow> Inl e | Inr vs \<Rightarrow> Inr (value_counts vs))"

definition origin_counts :: "frame \<Rightarrow> exn + (cell \<times> nat) list" where
  "origin_counts df =
     (case get_col df ''Case Origin'' of Inl e \<Rightarrow> Inl e | Inr vs \<Rightarrow> Inr (value_counts vs))"

text \<open>\<^verbatim>\<open>.head(10)\<close> is \<open>take 10\<close>.\<close>

definition top_brands :: "frame \<Rightarrow> exn + (cell \<times> nat) list" where
  "top_brands df =
     (case get_col df ''Product: Brand'' of
        Inl e \<Rightarrow> Inl e
      | Inr vs \<Rightarrow> Inr (take 10 (value_counts vs)))"

definition top_reasons :: "frame \<Rightarrow> exn + (cell \<times> nat) list" where
  "top_reasons df =
     (case get_col df ''Reason L1 desc'' of
        Inl e \<Rightarrow> Inl e
      | Inr vs \<Rightarrow> Inr (take 10 (value_counts vs)))"

subsection \<open>The monthly trend (lines 108 to 111)\<close>

text \<open>The text of a monthly period: four digits of year, a dash, two digits of month.\<close>

definition period_str :: "timestamp \<Rightarrow> string" where
  "period_str t = zfill 4 (str_nat (year t)) @ ''-'' @ zfill 2 (str_nat (month t))"

text \<open>
  \<^verbatim>\<open>.dt.to_period('M').astype(str)\<close> on one value. The \<^verbatim>\<open>.dt\<close> accessor exists only on
  a date column (line 17 makes the column one); an absent date prints as \<^verbatim>\<open>NaT\<close>.
\<close>

fun year_month :: "cell \<Rightarrow> exn + string" where
  "year_month (Date t) = Inr (period_str t)"
| "year_month NA = Inr ''NaT''"
| "year_month c = Inl AttributeError"

fun collect :: "(exn + 'a) list \<Rightarrow> exn + 'a list" where
  "collect [] = Inr []"
| "collect (x # xs) =
     (case x of
        Inl e \<Rightarrow> Inl e
      | Inr v \<Rightarrow> (case collect xs of Inl e \<Rightarrow> Inl e | Inr vs \<Rightarrow> Inr (v # vs)))"

text \<open>
  \<^verbatim>\<open>groupby(key).size()\<close> over string keys: one pair per distinct key, in ascending
  order of the keys (\<^verbatim>\<open>sort=True\<close>), with the number of rows of the group.
\<close>

definition groupby_size :: "string list \<Rightarrow> (string \<times> nat) list" where
  "groupby_size ks = map (\<lambda>k. (k, count_list ks k)) (sort (remdups ks))"

text \<open>
  Line 110, \<^verbatim>\<open>pd.to_datetime\<close> with the default \<^verbatim>\<open>errors='raise'\<close>, on the labels that
  line 108 writes: \<^verbatim>\<open>NaT\<close> is the absent date, \<^verbatim>\<open>YYYY-MM\<close> with a month from 1 to 12 is
  the first instant of that month. Nothing else is a label of a timestamp pandas can
  hold; it is rejected here.
\<close>

definition to_datetime_label :: "string \<Rightarrow> exn + timestamp option" where
  "to_datetime_label s =
     (if s = ''NaT'' then Inr None
      else if length s = 7 \<and> s ! 4 = CHR ''-'' \<and> list_all is_digit (take 4 s @ drop 5 s)
              \<and> 1 \<le> nat_of_digits (drop 5 s) \<and> nat_of_digits (drop 5 s) \<le> 12
      then Inr (Some (Timestamp (nat_of_digits (take 4 s)) (nat_of_digits (drop 5 s)) 0))
      else Inl ValueError)"

text \<open>\<^verbatim>\<open>sort_values\<close> on a date column: ascending, absent dates last.\<close>

fun na_last_key :: "timestamp option \<Rightarrow> nat \<times> nat \<times> nat \<times> nat" where
  "na_last_key (Some t) = (0, chron_key t)"
| "na_last_key None = (1, 0, 0, 0)"

definition sort_values :: "(timestamp option \<times> nat) list \<Rightarrow> (timestamp option \<times> nat) list" where
  "sort_values kvs = sort_key (\<lambda>(k, n). na_last_key k) kvs"

fun convert_key :: "string \<times> nat \<Rightarrow> exn + timestamp option \<times> nat" where
  "convert_key (k, n) = (case to_datetime_label k of Inl e \<Rightarrow> Inl e | Inr d \<Rightarrow> Inr (d, n))"

text \<open>
  Lines 108 to 111. Line 108 assigns the column \<^verbatim>\<open>YearMonth\<close> of the frame the cleaner
  returned, so the step returns the frame as well as the table. Line 109 groups by the
  column just assigned, whose values are \<open>labels\<close>.
\<close>

definition monthly_cases :: "frame \<Rightarrow> exn + frame \<times> (timestamp option \<times> nat) list" where
  "monthly_cases df =
     (case get_col df ''Opened Date'' of
        Inl e \<Rightarrow> Inl e
      | Inr od \<Rightarrow>
          (case collect (map year_month od) of
             Inl e \<Rightarrow> Inl e
           | Inr labels \<Rightarrow>
               (case collect (map convert_key (groupby_size labels)) of
                  Inl e \<Rightarrow> Inl e
                | Inr table \<Rightarrow>
                    Inr (set_col df ''YearMonth'' (map Str labels), sort_values table))))"

subsection \<open>Reading the tables\<close>

text \<open>The sum of the counts of a table.\<close>

definition counts_sum :: "('a \<times> nat) list \<Rightarrow> nat" where
  "counts_sum table = sum_list (map snd table)"

text \<open>
  The words of the specification for a full frequency table of a column: one pair per
  distinct value that occurs, with the number of rows holding it.
\<close>

definition spec_frequency_table :: "cell list \<Rightarrow> (cell \<times> nat) list \<Rightarrow> bool" where
  "spec_frequency_table vs table \<longleftrightarrow>
     distinct (map fst table) \<and>
     fst ` set table = set vs - {NA} \<and>
     (\<forall>(v, n) \<in> set table. n = count_list vs v)"

text \<open>
  The words of the specification for a table truncated to the top \<open>k\<close>: at most \<open>k\<close>
  pairs, all of them when the column has no more than \<open>k\<close> distinct values, each a
  value of the column with its count, in descending order of count, and no value left
  out has a higher count than one that is in.
\<close>

definition spec_top :: "nat \<Rightarrow> cell list \<Rightarrow> (cell \<times> nat) list \<Rightarrow> bool" where
  "spec_top k vs table \<longleftrightarrow>
     length table = min k (card (set vs - {NA})) \<and>
     distinct (map fst table) \<and>
     (\<forall>(v, n) \<in> set table. v \<in> set vs - {NA} \<and> n = count_list vs v) \<and>
     sorted_wrt (\<lambda>a b. b \<le> a) (map snd table) \<and>
     (\<forall>w \<in> set vs - {NA} - fst ` set table. \<forall>(v, n) \<in> set table. count_list vs w \<le> n)"

text \<open>The first instant of the month of a timestamp.\<close>

definition month_start :: "timestamp \<Rightarrow> timestamp" where
  "month_start t = Timestamp (year t) (month t) 0"

text \<open>Every opened date of the frame is a timestamp pandas can hold.\<close>

definition dates_valid :: "frame \<Rightarrow> bool" where
  "dates_valid df \<longleftrightarrow>
     list_all (\<lambda>v. case v of Date t \<Rightarrow> valid_ts t | _ \<Rightarrow> True) (col_values df ''Opened Date'')"

text \<open>The month a label of line 108 stands for, when line 110 accepts it.\<close>

definition label_month :: "string \<Rightarrow> timestamp option" where
  "label_month s = (case to_datetime_label s of Inl e \<Rightarrow> None | Inr d \<Rightarrow> d)"

text \<open>
  The words of the specification for the monthly trend of rows opened at \<open>ts\<close>: every
  key is a month, the keys increase strictly in time, every count is positive, the
  months are exactly the months of the rows, and the count of a month is the number of
  rows opened in it.
\<close>

definition spec_monthly_trend :: "timestamp list \<Rightarrow> (timestamp option \<times> nat) list \<Rightarrow> bool" where
  "spec_monthly_trend ts table \<longleftrightarrow>
     (\<forall>(k, n) \<in> set table. k \<noteq> None \<and> 0 < n) \<and>
     sorted_wrt (\<lambda>a b. chron_key (the a) < chron_key (the b)) (map fst table) \<and>
     fst ` set table = (\<lambda>t. Some (month_start t)) ` set ts \<and>
     (\<forall>(k, n) \<in> set table. n = length (filter (\<lambda>t. Some (month_start t) = k) ts))"

section \<open>The script\<close>

text \<open>
  What the page shows, in order. The fixed paragraphs of \<^verbatim>\<open>st.write\<close> carry no data
  and are one constructor; a chart carries the table it draws.
\<close>

datatype element =
    StError string
  | SidebarInfo string
  | PageConfig
  | Title string
  | Paragraph
  | Markdown string
  | Header string
  | BarChart "(cell \<times> nat) list"
  | LineChart "(timestamp option \<times> nat) list"
  | Info string

text \<open>
  A run stops early by \<^verbatim>\<open>st.stop()\<close> or by an exception nothing catches; what was
  shown before stays shown.
\<close>

datatype halt = Stop | Uncaught exn

type_synonym 'a run = "element list \<times> (halt + 'a)"

definition and_then :: "'a run \<Rightarrow> ('a \<Rightarrow> 'b run) \<Rightarrow> 'b run" where
  "and_then m f =
     (case m of
        (es, Inl h) \<Rightarrow> (es, Inl h)
      | (es, Inr a) \<Rightarrow> (case f a of (es', r) \<Rightarrow> (es @ es', r)))"

definition is_chart :: "element \<Rightarrow> bool" where
  "is_chart e = (case e of BarChart t \<Rightarrow> True | LineChart t \<Rightarrow> True | _ \<Rightarrow> False)"

definition is_error :: "element \<Rightarrow> bool" where
  "is_error e = (case e of StError s \<Rightarrow> True | _ \<Rightarrow> False)"

text \<open>
  Lines 9 to 34. \<open>file\<close> is what \<^verbatim>\<open>pd.read_csv('data/data.csv')\<close> does: the table, or
  the exception it raises. Only \<^verbatim>\<open>FileNotFoundError\<close> is caught.
\<close>

definition load_and_clean_data :: "(cell \<Rightarrow> timestamp option) \<Rightarrow> exn + frame \<Rightarrow> frame run" where
  "load_and_clean_data parse file =
     (case file of
        Inl e \<Rightarrow>
          if e = FileNotFoundError
          then ([StError ''Error: 'data.csv' not found. Please make sure the file is in the same directory as the Streamlit app.''],
                Inl Stop)
          else ([], Inl (Uncaught e))
      | Inr df \<Rightarrow>
          (case clean parse df of
             Inl e \<Rightarrow> ([], Inl (Uncaught e))
           | Inr (df', notes) \<Rightarrow> (map SidebarInfo notes, Inr df')))"

text \<open>One of the sections 1 to 4: header, the aggregation, its bar chart, the finding.\<close>

definition bar_section :: "string \<Rightarrow> (frame \<Rightarrow> exn + (cell \<times> nat) list) \<Rightarrow> frame \<Rightarrow> frame run" where
  "bar_section header agg df =
     (case agg df of
        Inl e \<Rightarrow> ([Header header], Inl (Uncaught e))
      | Inr table \<Rightarrow> ([Header header, BarChart table, Paragraph, Markdown ''---''], Inr df))"

definition trend_section :: "frame \<Rightarrow> frame run" where
  "trend_section df =
     (case monthly_cases df of
        Inl e \<Rightarrow> ([Header ''5. Monthly Trend of Cases Over Time''], Inl (Uncaught e))
      | Inr (df', table) \<Rightarrow>
          ([Header ''5. Monthly Trend of Cases Over Time'', LineChart table, Paragraph,
            Markdown ''---''], Inr df'))"

text \<open>Lines 53 to 121: the five aggregations, in the order of the script.\<close>

definition aggregations :: "frame \<Rightarrow> frame run" where
  "aggregations df =
     and_then (bar_section ''1. Distribution of Case Status'' status_counts df) (\<lambda>df.
     and_then (bar_section ''2. Distribution of Case Origin'' origin_counts df) (\<lambda>df.
     and_then (bar_section ''3. Top 10 Product Brands by Case Count'' top_brands df) (\<lambda>df.
     and_then (bar_section ''4. Top 10 Reasons L1 Description by Case Count'' top_reasons df)
       trend_section)))"

definition script :: "(cell \<Rightarrow> timestamp option) \<Rightarrow> exn + frame \<Rightarrow> frame run" where
  "script parse file =
     and_then (load_and_clean_data parse file) (\<lambda>df.
     and_then ([PageConfig, Title ''Customer Case Analysis Dashboard'', Paragraph,
                Markdown ''---''], Inr df) (\<lambda>df.
     and_then (aggregations df) (\<lambda>df.
       ([Info ''Analysis and visualizations completed. This app provides a dynamic view of your customer case data.''],
        Inr df))))"

section \<open>Example data\<close>

text \<open>
  A date parser for the examples: ISO dates \<^verbatim>\<open>YYYY-MM-DD\<close>, the offset in days; every
  other value is rejected.
\<close>

definition sample_parse :: "cell \<Rightarrow> timestamp option" where
  "sample_parse c =
     (case c of
        Str s \<Rightarrow>
          if length s = 10 \<and> s ! 4 = CHR ''-'' \<and> s ! 7 = CHR ''-''
             \<and> list_all is_digit (take 4 s @ take 2 (drop 5 s) @ drop 8 s)
             \<and> 1 \<le> nat_of_digits (take 2 (drop 5 s)) \<and> nat_of_digits (take 2 (drop 5 s)) \<le> 12
             \<and> 1 \<le> nat_of_digits (drop 8 s) \<and> nat_of_digits (drop 8 s) \<le> 31
          then Some (Timestamp (nat_of_digits (take 4 s)) (nat_of_digits (take 2 (drop 5 s)))
                       (nat_of_digits (drop 8 s) - 1))
          else None
      | _ \<Rightarrow> None)"

text \<open>
  A table as \<^verbatim>\<open>read_csv\<close> returns it: three rows with a date (January, January,
  February 2024), one with an empty date, one with a date that does not parse, one
  repeated row; one status is empty; the columns \<^verbatim>\<open>Store\<close> and \<^verbatim>\<open>Notes\<close> are empty
  throughout.
\<close>

definition sample_table :: frame where
  "sample_table =
     \<lparr>columns = [''Opened Date'', ''Status'', ''Case Origin'', ''Product: Brand'',
                 ''Reason L1 desc'', ''Store'', ''Notes''],
      rows =
        [[Str ''2024-01-05'', Str ''Closed'', Str ''Email'', Str ''Knorr'', Str ''Queries'', NA, NA],
         [Str ''2024-01-20'', NA, Str ''Phone'', Str ''Knorr'', Str ''Others'', NA, NA],
         [Str ''2024-02-03'', Str ''Closed'', Str ''Email'', Str ''Pepsodent'', Str ''Queries'', NA, NA],
         [NA, Str ''Open'', Str ''Email'', Str ''Knorr'', Str ''Queries'', NA, NA],
         [Str ''2024-01-05'', Str ''Closed'', Str ''Email'', Str ''Knorr'', Str ''Queries'', NA, NA],
         [Str ''soon'', Str ''Open'', Str ''Phone'', Str ''Knorr'', Str ''Others'', NA, NA]]\<rparr>"

text \<open>The table after lines 17 and 18.\<close>

definition sample_dated :: frame where
  "sample_dated =
     \<lparr>columns = [''Opened Date'', ''Status'', ''Case Origin'', ''Product: Brand'',
                 ''Reason L1 desc'', ''Store'', ''Notes''],
      rows =
        [[Date (Timestamp 2024 1 4), Str ''Closed'', Str ''Email'', Str ''Knorr'', Str ''Queries'', NA, NA],
         [Date (Timestamp 2024 1 19), NA, Str ''Phone'', Str ''Knorr'', Str ''Others'', NA, NA],
         [Date (Timestamp 2024 2 2), Str ''Closed'', Str ''Email'', Str ''Pepsodent'', Str ''Queries'', NA, NA],
         [Date (Timestamp 2024 1 4), Str ''Closed'', Str ''Email'', Str ''Knorr'', Str ''Queries'', NA, NA]]\<rparr>"

text \<open>What the cleaner makes of it.\<close>

definition sample_cleaned :: frame where
  "sample_cleaned =
     \<lparr>columns = [''Opened Date'', ''Status'', ''Case Origin'', ''Product: Brand'',
                 ''Reason L1 desc'', ''Notes''],
      rows =
        [[Date (Timestamp 2024 1 4), Str ''Closed'', Str ''Email'', Str ''Knorr'', Str ''Queries'', NA],
         [Date (Timestamp 2024 1 19), NA, Str ''Phone'', Str ''Knorr'', Str ''Others'', NA],
         [Date (Timestamp 2024 2 2), Str ''Closed'', Str ''Email'', Str ''Pepsodent'', Str ''Queries'', NA]]\<rparr>"

text \<open>The frame the script holds after the five aggregations.\<close>

definition sample_after :: frame where
  "sample_after =
     \<lparr>columns = [''Opened Date'', ''Status'', ''Case Origin'', ''Product: Brand'',
                 ''Reason L1 desc'', ''Notes'', ''YearMonth''],
      rows =
        [[Date (Timestamp 2024 1 4), Str ''Closed'', Str ''Email'', Str ''Knorr'', Str ''Queries'', NA,
          Str ''2024-01''],
         [Date (Timestamp 2024 1 19), NA, Str ''Phone'', Str ''Knorr'', Str ''Others'', NA,
          Str ''2024-01''],
         [Date (Timestamp 2024 2 2), Str ''Closed'', Str ''Email'', Str ''Pepsodent'', Str ''Queries'', NA,
          Str ''2024-02'']]\<rparr>"

section \<open>Lists and frames\<close>

subsection \<open>Positions in a list\<close>

lemma index_of_less: "x \<in> set xs \<Longrightarrow> index_of x xs < length xs"
  by (induction xs) auto

lemma index_of_le: "index_of x xs \<le> length xs"
  by (induction xs) auto

lemma nth_index_of: "index_of x xs < length xs \<Longrightarrow> xs ! index_of x xs = x"
  by (induction xs) (auto split: if_splits)

lemma index_of_notin: "x \<notin> set xs \<Longrightarrow> index_of x xs = length xs"
  by (induction xs) auto

lemma index_of_append_new: "x \<notin> set xs \<Longrightarrow> index_of x (xs @ [x]) = length xs"
  by (induction xs) auto

lemma index_of_append_old: "y \<in> set xs \<Longrightarrow> index_of y (xs @ zs) = index_of y xs"
  by (induction xs) auto

lemma index_of_neq: "x \<in> set xs \<Longrightarrow> x \<noteq> y \<Longrightarrow> index_of x xs \<noteq> index_of y xs"
  by (induction xs) auto

lemma drop_at_Cons_0: "drop_at 0 (a # xs) = xs"
  by (simp add: drop_at_def)

lemma drop_at_Cons_Suc: "drop_at (Suc j) (a # xs) = a # drop_at j xs"
  by (simp add: drop_at_def)

lemma index_of_drop_at:
  "x \<noteq> y \<Longrightarrow> x \<in> set xs \<Longrightarrow>
   index_of x (drop_at (index_of y xs) xs) =
     (if index_of x xs < index_of y xs then index_of x xs else index_of x xs - 1)"
proof (induction xs)
  case Nil
  then show ?case by simp
next
  case (Cons a xs)
  show ?case
  proof (cases "y = a")
    case True
    with Cons.prems show ?thesis by (simp add: drop_at_Cons_0)
  next
    case ya: False
    show ?thesis
    proof (cases "x = a")
      case True
      with ya show ?thesis by (simp add: drop_at_Cons_Suc)
    next
      case xa: False
      with Cons.prems have xin: "x \<in> set xs" by simp
      from index_of_neq [OF xin Cons.prems(1)]
      have ne: "index_of x xs \<noteq> index_of y xs" .
      from Cons.IH [OF Cons.prems(1) xin] ya xa ne show ?thesis
        by (auto simp: drop_at_Cons_Suc)
    qed
  qed
qed

lemma set_drop_at_index_of:
  "distinct xs \<Longrightarrow> set (drop_at (index_of y xs) xs) = set xs - {y}"
  by (induction xs) (auto simp: drop_at_Cons_0 drop_at_Cons_Suc drop_at_def)

lemma distinct_drop_at: "distinct xs \<Longrightarrow> distinct (drop_at i xs)"
  by (simp add: drop_at_def set_take_disj_set_drop_if_distinct)

lemma length_drop_at: "i < length xs \<Longrightarrow> length (drop_at i xs) = length xs - 1"
  by (auto simp: drop_at_def)

lemma nth_drop_at:
  "j < length r \<Longrightarrow> i < length r - 1 \<Longrightarrow> drop_at j r ! i = (if i < j then r ! i else r ! Suc i)"
  by (auto simp: drop_at_def nth_append min_def)

subsection \<open>Lines 17 and 18\<close>

lemma map2_map_same: "map2 f rs (map g rs) = map (\<lambda>r. f r (g r)) rs"
  by (induction rs) auto

lemma wf_frame_rowsD: "wf_frame df \<Longrightarrow> r \<in> set (rows df) \<Longrightarrow> length r = length (columns df)"
  by (simp add: wf_frame_def list_all_iff)

lemma to_datetime_coerce_cases:
  "to_datetime_coerce parse c = NA \<or> (\<exists>t. to_datetime_coerce parse c = Date t)"
  by (cases c) (auto split: option.splits)

lemma parse_opened_date_eq:
  assumes "''Opened Date'' \<in> set (columns df)"
  shows "parse_opened_date parse df =
           Inr (df\<lparr>rows := filter (\<lambda>r. r ! index_of ''Opened Date'' (columns df) \<noteq> NA)
                  (map (\<lambda>r. r[index_of ''Opened Date'' (columns df) :=
                               to_datetime_coerce parse (r ! index_of ''Opened Date'' (columns df))])
                     (rows df))\<rparr>)"
  using assms
  by (simp add: parse_opened_date_def get_col_def set_col_def dropna_subset_def col_values_def
      map2_map_same)

lemma parse_opened_date_KeyError:
  "''Opened Date'' \<notin> set (columns df) \<Longrightarrow> parse_opened_date parse df = Inl (KeyError ''Opened Date'')"
  by (simp add: parse_opened_date_def get_col_def)

lemma parse_opened_date_props:
  assumes wf: "wf_frame df" and ok: "parse_opened_date parse df = Inr df1"
  shows "columns df1 = columns df"
    and "wf_frame df1"
    and "''Opened Date'' \<in> set (columns df)"
    and "\<forall>r \<in> set (rows df1). \<exists>t. r ! index_of ''Opened Date'' (columns df) = Date t"
    and "length (rows df1) =
           length (filter (\<lambda>v. to_datetime_coerce parse v \<noteq> NA) (col_values df ''Opened Date''))"
proof -
  show od: "''Opened Date'' \<in> set (columns df)"
    using ok by (auto simp: parse_opened_date_def get_col_def split: if_splits)
  let ?i = "index_of ''Opened Date'' (columns df)"
  have df1: "df1 = df\<lparr>rows := filter (\<lambda>r. r ! ?i \<noteq> NA)
                  (map (\<lambda>r. r[?i := to_datetime_coerce parse (r ! ?i)]) (rows df))\<rparr>"
    using ok parse_opened_date_eq [OF od, of parse] by simp
  show "columns df1 = columns df" by (simp add: df1)
  show "wf_frame df1"
    using wf by (auto simp: df1 wf_frame_def list_all_iff)
  have i: "?i < length (columns df)" using od by (rule index_of_less)
  show "\<forall>r \<in> set (rows df1). \<exists>t. r ! ?i = Date t"
  proof
    fix r assume "r \<in> set (rows df1)"
    then obtain r0 where r0: "r0 \<in> set (rows df)"
      and r: "r = r0[?i := to_datetime_coerce parse (r0 ! ?i)]" and nn: "r ! ?i \<noteq> NA"
      by (auto simp: df1)
    have "length r0 = length (columns df)" using wf r0 by (rule wf_frame_rowsD)
    with i have "r ! ?i = to_datetime_coerce parse (r0 ! ?i)" by (simp add: r)
    with nn to_datetime_coerce_cases [of parse "r0 ! ?i"] show "\<exists>t. r ! ?i = Date t" by auto
  qed
  have "\<forall>r \<in> set (rows df). (r[?i := to_datetime_coerce parse (r ! ?i)]) ! ?i
          = to_datetime_coerce parse (r ! ?i)"
    using i wf by (auto dest: wf_frame_rowsD)
  then have "filter (\<lambda>r. r ! ?i \<noteq> NA) (map (\<lambda>r. r[?i := to_datetime_coerce parse (r ! ?i)]) (rows df))
      = map (\<lambda>r. r[?i := to_datetime_coerce parse (r ! ?i)])
          (filter (\<lambda>r. to_datetime_coerce parse (r ! ?i) \<noteq> NA) (rows df))"
    by (simp add: filter_map comp_def cong: filter_cong)
  then show "length (rows df1) =
           length (filter (\<lambda>v. to_datetime_coerce parse v \<noteq> NA) (col_values df ''Opened Date''))"
    by (simp add: df1 col_values_def filter_map comp_def)
qed

subsection \<open>Keeping first occurrences\<close>

lemma set_keep_first: "set (keep_first seen xs) = set xs - set seen"
  by (induction xs arbitrary: seen) auto

lemma distinct_keep_first: "distinct (keep_first seen xs)"
  by (induction xs arbitrary: seen) (auto simp: set_keep_first)

lemma keep_first_distinct_id:
  "distinct xs \<Longrightarrow> set xs \<inter> set seen = {} \<Longrightarrow> keep_first seen xs = xs"
  by (induction xs arbitrary: seen) auto

lemma length_keep_first_le: "length (keep_first seen xs) \<le> length xs"
  by (induction xs arbitrary: seen) (auto simp: le_SucI)

subsection \<open>Dropping a column\<close>

lemma wf_drop_col:
  assumes "wf_frame df" "c \<in> set (columns df)"
  shows "wf_frame (drop_col df c)"
  using assms index_of_less [of c "columns df"]
  by (auto simp: wf_frame_def drop_col_def list_all_iff distinct_drop_at length_drop_at)

lemma columns_drop_col: "distinct (columns df) \<Longrightarrow> set (columns (drop_col df c)) = set (columns df) - {c}"
  by (simp add: drop_col_def set_drop_at_index_of)

lemma length_rows_drop_col: "length (rows (drop_col df c)) = length (rows df)"
  by (simp add: drop_col_def)

lemma col_values_drop_col:
  assumes wf: "wf_frame df" and s: "s \<in> set (columns df)" and c: "c \<in> set (columns df)" and ne: "c \<noteq> s"
  shows "col_values (drop_col df s) c = col_values df c"
proof -
  let ?i = "index_of c (columns df)" and ?j = "index_of s (columns df)"
  have i: "?i < length (columns df)" and j: "?j < length (columns df)"
    using c s by (auto intro: index_of_less)
  have ij: "?i \<noteq> ?j" using c ne by (rule index_of_neq)
  have idx: "index_of c (drop_at ?j (columns df)) = (if ?i < ?j then ?i else ?i - 1)"
    using ne c by (rule index_of_drop_at)
  have "drop_at ?j r ! (if ?i < ?j then ?i else ?i - 1) = r ! ?i" if "r \<in> set (rows df)" for r
  proof -
    have len: "length r = length (columns df)" using wf that by (rule wf_frame_rowsD)
    show ?thesis
    proof (cases "?i < ?j")
      case True
      then show ?thesis using j len by (simp add: nth_drop_at)
    next
      case False
      with ij have ji: "?j < ?i" by simp
      then have a: "\<not> (?i - 1 < ?j)" and b: "Suc (?i - 1) = ?i" and c: "?i - 1 < length r - 1"
        using i len by auto
      have "drop_at ?j r ! (?i - 1) = r ! Suc (?i - 1)"
        using j len c a by (simp only: nth_drop_at if_False)
      with False b show ?thesis by simp
    qed
  qed
  then show ?thesis
    by (simp add: col_values_def drop_col_def idx del: index_of.simps)
qed

subsection \<open>Lines 21 to 32\<close>

lemma drop_at_index_of_remove1: "drop_at (index_of c xs) xs = remove1 c xs"
  by (induction xs) (auto simp: drop_at_Cons_0 drop_at_Cons_Suc drop_at_def)

lemma isnull_all_set: "isnull_all vs \<longleftrightarrow> set vs \<subseteq> {NA}"
  by (auto simp: isnull_all_def list_all_iff)

lemma drop_store_props:
  assumes wf: "wf_frame df1" and ds: "drop_store df1 = (df2, notes1)"
  shows "wf_frame df2"
    and "length (rows df2) = length (rows df1)"
    and "c \<noteq> ''Store'' \<Longrightarrow> c \<in> set (columns df1) \<Longrightarrow>
           c \<in> set (columns df2) \<and> col_values df2 c = col_values df1 c"
    and "c \<in> set (columns df2) \<Longrightarrow> c \<in> set (columns df1)"
    and "''Store'' \<in> set (columns df2) \<longleftrightarrow>
           ''Store'' \<in> set (columns df1) \<and> \<not> isnull_all (col_values df1 ''Store'')"
    and "''Store'' \<in> set (columns df2) \<Longrightarrow> \<not> isnull_all (col_values df2 ''Store'')"
    and "columns df2 =
           (if ''Store'' \<in> set (columns df1) \<and> isnull_all (col_values df1 ''Store'')
            then remove1 ''Store'' (columns df1) else columns df1)"
proof -
  have d: "distinct (columns df1)" using wf by (simp add: wf_frame_def)
  show "wf_frame df2"
    using wf ds by (auto simp: drop_store_def wf_drop_col split: if_splits)
  show "length (rows df2) = length (rows df1)"
    using ds by (auto simp: drop_store_def length_rows_drop_col split: if_splits)
  show "c \<in> set (columns df2) \<and> col_values df2 c = col_values df1 c"
    if "c \<noteq> ''Store''" "c \<in> set (columns df1)"
    using wf ds that d
    by (auto simp: drop_store_def columns_drop_col col_values_drop_col split: if_splits)
  show "c \<in> set (columns df1)" if "c \<in> set (columns df2)"
    using ds that d by (auto simp: drop_store_def columns_drop_col split: if_splits)
  show "''Store'' \<in> set (columns df2) \<longleftrightarrow>
           ''Store'' \<in> set (columns df1) \<and> \<not> isnull_all (col_values df1 ''Store'')"
    using ds d by (auto simp: drop_store_def columns_drop_col split: if_splits)
  show "\<not> isnull_all (col_values df2 ''Store'')" if "''Store'' \<in> set (columns df2)"
    using ds d that by (auto simp: drop_store_def columns_drop_col split: if_splits)
  show "columns df2 =
           (if ''Store'' \<in> set (columns df1) \<and> isnull_all (col_values df1 ''Store'')
            then remove1 ''Store'' (columns df1) else columns df1)"
    using ds by (auto simp: drop_store_def drop_col_def drop_at_index_of_remove1 split: if_splits)
qed

lemma fst_remove_duplicates: "fst (remove_duplicates df) = drop_duplicates df"
  by (simp add: remove_duplicates_def Let_def)

lemma snd_remove_duplicates:
  "snd (remove_duplicates df) =
     [if length (rows df) > length (rows (drop_duplicates df))
      then ''Removed '' @ str_nat (length (rows df) - length (rows (drop_duplicates df)))
             @ '' duplicate rows.''
      else ''No duplicate rows found.'']"
  by (simp add: remove_duplicates_def Let_def)

lemma drop_duplicates_props:
  shows "columns (drop_duplicates df) = columns df"
    and "rows (drop_duplicates df) = keep_first [] (rows df)"
    and "set (rows (drop_duplicates df)) = set (rows df)"
    and "distinct (rows (drop_duplicates df))"
    and "set (col_values (drop_duplicates df) c) = set (col_values df c)"
    and "wf_frame df \<Longrightarrow> wf_frame (drop_duplicates df)"
    and "length (rows (drop_duplicates df)) \<le> length (rows df)"
  by (simp_all add: drop_duplicates_def set_keep_first distinct_keep_first col_values_def
      wf_frame_def list_all_iff length_keep_first_le)

lemma drop_duplicates_id: "distinct (rows df) \<Longrightarrow> drop_duplicates df = df"
  by (simp add: drop_duplicates_def keep_first_distinct_id)

subsection \<open>The stages of the cleaner\<close>

lemma clean_stages:
  assumes "clean parse df = Inr (df', notes)"
  obtains df1 where "parse_opened_date parse df = Inr df1"
    and "df' = drop_duplicates (fst (drop_store df1))"
    and "notes = snd (drop_store df1) @ snd (remove_duplicates (fst (drop_store df1)))"
proof -
  from assms obtain df1 where p: "parse_opened_date parse df = Inr df1"
    by (auto simp: clean_def split: sum.splits)
  obtain df2 n1 where ds: "drop_store df1 = (df2, n1)" by (cases "drop_store df1")
  obtain df3 n2 where rd: "remove_duplicates df2 = (df3, n2)" by (cases "remove_duplicates df2")
  from assms p ds rd have "df' = df3" "notes = n1 @ n2" by (auto simp: clean_def)
  moreover from rd have "df3 = drop_duplicates df2" "n2 = snd (remove_duplicates df2)"
    using fst_remove_duplicates [of df2] by auto
  ultimately show thesis using that [OF p] ds by simp
qed

lemma clean_invariants:
  assumes wf: "wf_frame df" and cl: "clean parse df = Inr (df', notes)"
  shows "wf_frame df'"
    and "''Opened Date'' \<in> set (columns df')"
    and "\<forall>v \<in> set (col_values df' ''Opened Date''). \<exists>t. v = Date t"
    and "distinct (rows df')"
    and "''Store'' \<in> set (columns df') \<Longrightarrow> \<not> isnull_all (col_values df' ''Store'')"
proof -
  from cl obtain df1 where p: "parse_opened_date parse df = Inr df1"
    and df': "df' = drop_duplicates (fst (drop_store df1))"
    by (rule clean_stages)
  obtain df2 n1 where ds: "drop_store df1 = (df2, n1)" by (cases "drop_store df1")
  note P = parse_opened_date_props [OF wf p]
  note D = drop_store_props [OF P(2) ds]
  have df'2: "df' = drop_duplicates df2" using df' ds by simp
  show "wf_frame df'" using D(1) by (simp add: df'2 drop_duplicates_props)
  have od1: "''Opened Date'' \<in> set (columns df1)" using P(1,3) by simp
  have od2: "''Opened Date'' \<in> set (columns df2) \<and>
      col_values df2 ''Opened Date'' = col_values df1 ''Opened Date''"
    using D(3) [of "''Opened Date''"] od1 by simp
  then show "''Opened Date'' \<in> set (columns df')" by (simp add: df'2 drop_duplicates_props)
  have "\<forall>v \<in> set (col_values df1 ''Opened Date''). \<exists>t. v = Date t"
    using P(4) by (auto simp: col_values_def P(1))
  then show "\<forall>v \<in> set (col_values df' ''Opened Date''). \<exists>t. v = Date t"
    using od2 by (simp add: df'2 drop_duplicates_props)
  show "distinct (rows df')" unfolding df'2 by (rule drop_duplicates_props)
  show "\<not> isnull_all (col_values df' ''Store'')" if "''Store'' \<in> set (columns df')"
    using D(6) that by (simp add: df'2 drop_duplicates_props isnull_all_set)
qed

lemma length_rows_fst_drop_store: "length (rows (fst (drop_store df))) = length (rows df)"
  by (simp add: drop_store_def length_rows_drop_col)

lemma load_and_clean_data_Inr:
  assumes "load_and_clean_data parse (Inr df) = (es, Inr df')"
  obtains ns where "clean parse df = Inr (df', ns)" and "es = map SidebarInfo ns"
  using assms by (auto simp: load_and_clean_data_def split: sum.splits prod.splits)

subsection \<open>Assigning a column\<close>

lemma columns_set_col:
  "columns (set_col df c vs) = (if c \<in> set (columns df) then columns df else columns df @ [c])"
  by (simp add: set_col_def)

lemma length_rows_set_col:
  "length vs = length (rows df) \<Longrightarrow> length (rows (set_col df c vs)) = length (rows df)"
  by (simp add: set_col_def)

lemma map_nth_map2_update_other:
  "length vs = length rs \<Longrightarrow> i \<noteq> j \<Longrightarrow>
   map (\<lambda>r. r ! j) (map2 (\<lambda>r v. r[i := v]) rs vs) = map (\<lambda>r. r ! j) rs"
  by (induction vs rs rule: list_induct2) auto

lemma map_nth_map2_update_same:
  "length vs = length rs \<Longrightarrow> \<forall>r \<in> set rs. i < length r \<Longrightarrow>
   map (\<lambda>r. r ! i) (map2 (\<lambda>r v. r[i := v]) rs vs) = vs"
  by (induction vs rs rule: list_induct2) auto

lemma map_nth_map2_snoc_old:
  "length vs = length rs \<Longrightarrow> \<forall>r \<in> set rs. j < length r \<Longrightarrow>
   map (\<lambda>r. r ! j) (map2 (\<lambda>r v. r @ [v]) rs vs) = map (\<lambda>r. r ! j) rs"
  by (induction vs rs rule: list_induct2) (auto simp: nth_append)

lemma map_nth_map2_snoc_new:
  "length vs = length rs \<Longrightarrow> \<forall>r \<in> set rs. length r = n \<Longrightarrow>
   map (\<lambda>r. r ! n) (map2 (\<lambda>r v. r @ [v]) rs vs) = vs"
  by (induction vs rs rule: list_induct2) auto

lemma col_values_set_col_other:
  assumes wf: "wf_frame df" and len: "length vs = length (rows df)"
    and c': "c' \<in> set (columns df)" and ne: "c' \<noteq> c"
  shows "col_values (set_col df c vs) c' = col_values df c'"
proof (cases "c \<in> set (columns df)")
  case True
  have "index_of c (columns df) \<noteq> index_of c' (columns df)"
    using index_of_neq [OF c' ne] by simp
  with True map_nth_map2_update_other [OF len, of "index_of c (columns df)" "index_of c' (columns df)"]
  show ?thesis
    by (simp add: col_values_def set_col_def)
next
  case False
  have "\<forall>r \<in> set (rows df). index_of c' (columns df) < length r"
    using index_of_less [OF c'] wf by (auto dest: wf_frame_rowsD)
  with False c' map_nth_map2_snoc_old [OF len, of "index_of c' (columns df)"]
  show ?thesis
    by (simp add: col_values_def set_col_def index_of_append_old)
qed

lemma col_values_set_col_same:
  assumes wf: "wf_frame df" and len: "length vs = length (rows df)"
  shows "col_values (set_col df c vs) c = vs"
proof (cases "c \<in> set (columns df)")
  case True
  have "\<forall>r \<in> set (rows df). index_of c (columns df) < length r"
    using index_of_less [OF True] wf by (auto dest: wf_frame_rowsD)
  with True map_nth_map2_update_same [OF len, of "index_of c (columns df)"]
  show ?thesis
    by (simp add: col_values_def set_col_def)
next
  case False
  have "\<forall>r \<in> set (rows df). length r = length (columns df)"
    using wf by (auto dest: wf_frame_rowsD)
  with False map_nth_map2_snoc_new [OF len, of "length (columns df)"]
  show ?thesis
    by (simp add: col_values_def set_col_def index_of_append_new)
qed

subsection \<open>The sections of the script\<close>

lemma collect_length: "collect xs = Inr ys \<Longrightarrow> length ys = length xs"
  by (induction xs arbitrary: ys) (auto split: sum.splits)

lemma bar_section_Inr:
  "bar_section h agg df = (es, Inr df') \<Longrightarrow> df' = df \<and> (\<exists>t. agg df = Inr t)"
  by (auto simp: bar_section_def split: sum.splits)

lemma and_then_Inr:
  assumes "and_then m f = (es, Inr b)"
  obtains es1 a es2 where "m = (es1, Inr a)" and "f a = (es2, Inr b)" and "es = es1 @ es2"
  using assms by (auto simp: and_then_def split: prod.splits sum.splits)

lemma aggregations_Inr:
  assumes "aggregations df = (es, Inr df')"
  obtains sc oc tb tr mc where "status_counts df = Inr sc" and "origin_counts df = Inr oc"
    and "top_brands df = Inr tb" and "top_reasons df = Inr tr"
    and "monthly_cases df = Inr (df', mc)"
proof -
  from assms [unfolded aggregations_def] obtain e1 d1 e1' where 1: "bar_section ''1. Distribution of Case Status'' status_counts df = (e1, Inr d1)"
    and r1: "and_then (bar_section ''2. Distribution of Case Origin'' origin_counts d1) (\<lambda>df.
     and_then (bar_section ''3. Top 10 Product Brands by Case Count'' top_brands df) (\<lambda>df.
     and_then (bar_section ''4. Top 10 Reasons L1 Description by Case Count'' top_reasons df)
       trend_section)) = (e1', Inr df')"
    by (rule and_then_Inr)
  from bar_section_Inr [OF 1] obtain sc where d1: "d1 = df" and sc: "status_counts df = Inr sc" by blast
  from r1 obtain e2 d2 e2' where 2: "bar_section ''2. Distribution of Case Origin'' origin_counts d1 = (e2, Inr d2)"
    and r2: "and_then (bar_section ''3. Top 10 Product Brands by Case Count'' top_brands d2) (\<lambda>df.
     and_then (bar_section ''4. Top 10 Reasons L1 Description by Case Count'' top_reasons df)
       trend_section) = (e2', Inr df')"
    by (rule and_then_Inr)
  from bar_section_Inr [OF 2] d1 obtain oc where d2: "d2 = df" and oc: "origin_counts df = Inr oc" by blast
  from r2 obtain e3 d3 e3' where 3: "bar_section ''3. Top 10 Product Brands by Case Count'' top_brands d2 = (e3, Inr d3)"
    and r3: "and_then (bar_section ''4. Top 10 Reasons L1 Description by Case Count'' top_reasons d3)
       trend_section = (e3', Inr df')"
    by (rule and_then_Inr)
  from bar_section_Inr [OF 3] d2 obtain tb where d3: "d3 = df" and tb: "top_brands df = Inr tb" by blast
  from r3 obtain e4 d4 e4' where 4: "bar_section ''4. Top 10 Reasons L1 Description by Case Count'' top_reasons d3 = (e4, Inr d4)"
    and r4: "trend_section d4 = (e4', Inr df')"
    by (rule and_then_Inr)
  from bar_section_Inr [OF 4] d3 obtain tr where d4: "d4 = df" and tr: "top_reasons df = Inr tr" by blast
  from r4 d4 obtain mc where "monthly_cases df = Inr (df', mc)"
    by (auto simp: trend_section_def split: sum.splits prod.splits)
  with sc oc tb tr show thesis by (rule that)
qed

lemma monthly_cases_frame:
  assumes "monthly_cases df = Inr (df', mc)"
  obtains labels where "''Opened Date'' \<in> set (columns df)"
    and "collect (map year_month (col_values df ''Opened Date'')) = Inr labels"
    and "df' = set_col df ''YearMonth'' (map Str labels)"
    and "length labels = length (rows df)"
proof -
  from assms have od: "''Opened Date'' \<in> set (columns df)"
    by (auto simp: monthly_cases_def get_col_def split: if_splits)
  with assms obtain labels where l: "collect (map year_month (col_values df ''Opened Date'')) = Inr labels"
    and d: "df' = set_col df ''YearMonth'' (map Str labels)"
    by (auto simp: monthly_cases_def get_col_def split: sum.splits)
  from collect_length [OF l] have "length labels = length (rows df)" by (simp add: col_values_def)
  with od l d show thesis by (rule that)
qed

subsection \<open>Counting values\<close>

lemma sum_list_map_insort_key:
  "sum_list (map g (insort_key f x xs)) = (g x :: nat) + sum_list (map g xs)"
  by (induction xs) auto

lemma sum_list_map_sort_key: "sum_list (map g (sort_key f xs)) = (sum_list (map g xs) :: nat)"
  by (induction xs) (auto simp: sum_list_map_insort_key)

lemma counts_sum_sort_key: "counts_sum (sort_key f table) = counts_sum table"
  by (simp add: counts_sum_def sum_list_map_sort_key)

lemma counts_sum_take_le: "counts_sum (take k table) \<le> counts_sum table"
proof -
  have "counts_sum table = counts_sum (take k table) + counts_sum (drop k table)"
    unfolding counts_sum_def by (metis append_take_drop_id map_append sum_list_append)
  then show ?thesis by simp
qed

lemma count_list_filter: "P v \<Longrightarrow> count_list (filter P vs) v = count_list vs v"
  by (induction vs) auto

text \<open>The distinct values of a column that are present, in the order of their first row.\<close>

lemma present_values:
  "distinct (keep_first [] (filter (\<lambda>v. v \<noteq> NA) vs))"
  "set (keep_first [] (filter (\<lambda>v. v \<noteq> NA) vs)) = set vs - {NA}"
  by (auto simp: distinct_keep_first set_keep_first)

lemma length_present_values:
  "length (keep_first [] (filter (\<lambda>v. v \<noteq> NA) vs)) = card (set vs - {NA})"
  using distinct_card [OF present_values(1), of vs] by (simp add: present_values(2))

lemma value_counts_set:
  "set (value_counts vs) = (\<lambda>v. (v, count_list vs v)) ` (set vs - {NA})"
  by (simp add: value_counts_def present_values)

lemma value_counts_length: "length (value_counts vs) = card (set vs - {NA})"
  by (simp add: value_counts_def length_present_values)

lemma value_counts_distinct: "distinct (map fst (value_counts vs))"
proof -
  have "distinct (map (\<lambda>v. (v, count_list vs v)) (keep_first [] (filter (\<lambda>v. v \<noteq> NA) vs)))"
    by (simp add: distinct_map present_values inj_on_def)
  then have "distinct (value_counts vs)" by (simp add: value_counts_def)
  moreover have "inj_on fst (set (value_counts vs))"
    by (auto simp: value_counts_set inj_on_def)
  ultimately show ?thesis by (simp add: distinct_map)
qed

lemma value_counts_descending: "sorted_wrt (\<lambda>a b. b \<le> a) (map snd (value_counts vs))"
proof -
  have "sorted (map (\<lambda>(v, n). - int n) (value_counts vs))"
    unfolding value_counts_def by (rule sorted_sort_key)
  then have "sorted_wrt (\<lambda>x y. (case x of (v, n) \<Rightarrow> - int n) \<le> (case y of (v, n) \<Rightarrow> - int n))
               (value_counts vs)"
    by (simp add: sorted_wrt_map)
  then have "sorted_wrt (\<lambda>x y. snd y \<le> snd x) (value_counts vs)"
    by (rule sorted_wrt_mono_rel [rotated]) (auto split: prod.splits)
  then show ?thesis by (simp add: sorted_wrt_map)
qed

lemma value_counts_total: "counts_sum (value_counts vs) = length (filter (\<lambda>v. v \<noteq> NA) vs)"
proof -
  let ?ds = "keep_first [] (filter (\<lambda>v. v \<noteq> NA) vs)"
  have "counts_sum (value_counts vs) = sum_list (map (count_list vs) ?ds)"
    by (simp add: value_counts_def counts_sum_sort_key) (simp add: counts_sum_def comp_def)
  also have "\<dots> = sum (count_list vs) (set ?ds)"
    using present_values(1) by (rule sum_list_distinct_conv_sum_set)
  also have "\<dots> = sum (count_list (filter (\<lambda>v. v \<noteq> NA) vs)) (set ?ds)"
    by (rule sum.cong) (auto simp: present_values count_list_filter)
  also have "\<dots> = length (filter (\<lambda>v. v \<noteq> NA) vs)"
    by (rule sum_count_set) (auto simp: present_values)
  finally show ?thesis .
qed

lemma value_counts_frequency_table: "spec_frequency_table vs (value_counts vs)"
proof -
  have a: "fst ` set (value_counts vs) = set vs - {NA}"
    by (simp add: value_counts_set image_image)
  have b: "\<forall>(v, n) \<in> set (value_counts vs). n = count_list vs v"
    by (auto simp: value_counts_set)
  show ?thesis
    unfolding spec_frequency_table_def by (intro conjI value_counts_distinct a b)
qed

lemma value_counts_top: "spec_top k vs (take k (value_counts vs))"
proof -
  let ?vc = "value_counts vs"
  have 1: "length (take k ?vc) = min k (card (set vs - {NA}))"
    by (simp add: value_counts_length min.commute)
  have 2: "distinct (map fst (take k ?vc))"
    using value_counts_distinct [of vs] by (simp add: take_map [symmetric] distinct_take)
  have 3: "\<forall>(v, n) \<in> set (take k ?vc). v \<in> set vs - {NA} \<and> n = count_list vs v"
    using set_take_subset [of k ?vc] by (auto simp: value_counts_set)
  have 4: "sorted_wrt (\<lambda>a b. b \<le> a) (map snd (take k ?vc))"
    using value_counts_descending [of vs] by (simp add: take_map [symmetric] sorted_wrt_take)
  have 5: "\<forall>w \<in> set vs - {NA} - fst ` set (take k ?vc). \<forall>(v, n) \<in> set (take k ?vc). count_list vs w \<le> n"
  proof -
    have "count_list vs w \<le> n"
      if w: "w \<in> set vs" "w \<noteq> NA" "w \<notin> fst ` set (take k ?vc)"
        and vn: "(v, n) \<in> set (take k ?vc)" for w v n
    proof -
    from w(1,2) have "(w, count_list vs w) \<in> set ?vc" by (simp add: value_counts_set)
    then have "(w, count_list vs w) \<in> set (take k ?vc) \<union> set (drop k ?vc)"
      by (metis append_take_drop_id set_append)
    moreover have "(w, count_list vs w) \<notin> set (take k ?vc)"
      using w(3) image_iff by fastforce
    ultimately have d: "(w, count_list vs w) \<in> set (drop k ?vc)" by simp
    have "sorted_wrt (\<lambda>a b. b \<le> a) (map snd (take k ?vc) @ map snd (drop k ?vc))"
      using value_counts_descending [of vs] by (simp add: map_append [symmetric])
    then have "\<forall>a \<in> set (map snd (take k ?vc)). \<forall>b \<in> set (map snd (drop k ?vc)). b \<le> a"
      by (simp add: sorted_wrt_append)
    moreover have "n \<in> set (map snd (take k ?vc))"
      using vn by (simp add: image_iff) (metis snd_conv)
    moreover have "count_list vs w \<in> set (map snd (drop k ?vc))"
      using d by (simp add: image_iff) (metis snd_conv)
    ultimately show "count_list vs w \<le> n" by blast
    qed
    then show ?thesis by blast
  qed
  show ?thesis unfolding spec_top_def by (intro conjI 1 2 3 4 5)
qed

lemma length_filter_col_le: "length (filter P (col_values df c)) \<le> length (rows df)"
  by (metis col_values_def length_filter_le length_map)

subsection \<open>Labels of months\<close>

lemma digit_cases:
  "d < 10 \<Longrightarrow> d = 0 \<or> d = 1 \<or> d = 2 \<or> d = 3 \<or> d = 4 \<or> d = 5 \<or> d = 6 \<or> d = 7 \<or> d = 8 \<or> d = (9::nat)"
  by arith

lemma digit_val_digit_char: "d < 10 \<Longrightarrow> digit_val (digit_char d) = d"
  using digit_cases [of d] by (auto simp: digit_val_def digit_char_def)

lemma is_digit_digit_char: "d < 10 \<Longrightarrow> is_digit (digit_char d)"
  using digit_cases [of d] by (auto simp: is_digit_def digit_char_def)

lemma digit_char_0: "digit_char 0 = CHR ''0''"
  by (simp add: digit_char_def)

lemma str_nat_1: "n < 10 \<Longrightarrow> str_nat n = [digit_char n]"
  by (subst str_nat.simps) simp

lemma str_nat_2:
  "10 \<le> n \<Longrightarrow> n < 100 \<Longrightarrow> str_nat n = [digit_char (n div 10), digit_char (n mod 10)]"
  by (subst str_nat.simps) (simp add: str_nat_1)

lemma str_nat_3:
  "100 \<le> n \<Longrightarrow> n < 1000 \<Longrightarrow>
   str_nat n = [digit_char (n div 100), digit_char (n div 10 mod 10), digit_char (n mod 10)]"
  by (subst str_nat.simps) (simp add: str_nat_2 div_mult2_eq [symmetric])

lemma str_nat_4:
  "1000 \<le> n \<Longrightarrow> n < 10000 \<Longrightarrow>
   str_nat n = [digit_char (n div 1000), digit_char (n div 100 mod 10),
                digit_char (n div 10 mod 10), digit_char (n mod 10)]"
  by (subst str_nat.simps) (simp add: str_nat_3 div_mult2_eq [symmetric])

lemma zfill_month:
  assumes "1 \<le> m" "m \<le> 12"
  shows "zfill 2 (str_nat m) = [digit_char (m div 10), digit_char (m mod 10)]"
proof (cases "m < 10")
  case True
  then show ?thesis by (simp add: str_nat_1 zfill_def digit_char_0)
next
  case False
  with assms show ?thesis by (simp add: str_nat_2 zfill_def)
qed

lemma zfill_year:
  assumes "1000 \<le> y" "y < 10000"
  shows "zfill 4 (str_nat y) =
           [digit_char (y div 1000), digit_char (y div 100 mod 10),
            digit_char (y div 10 mod 10), digit_char (y mod 10)]"
  using assms by (simp add: str_nat_4 zfill_def)

lemma period_str_valid:
  assumes "valid_ts t"
  shows "period_str t =
           [digit_char (year t div 1000), digit_char (year t div 100 mod 10),
            digit_char (year t div 10 mod 10), digit_char (year t mod 10), CHR ''-'',
            digit_char (month t div 10), digit_char (month t mod 10)]"
  using assms by (simp add: period_str_def valid_ts_def zfill_year zfill_month)

lemma to_datetime_label_period_str:
  assumes "valid_ts t"
  shows "to_datetime_label (period_str t) = Inr (Some (month_start t))"
proof -
  let ?y = "year t" and ?m = "month t"
  have y: "?y < 10000" and m: "1 \<le> ?m" "?m \<le> 12" using assms by (auto simp: valid_ts_def)
  have dy: "?y div 1000 < 10" "?y div 100 mod 10 < 10" "?y div 10 mod 10 < 10" "?y mod 10 < 10"
    using y by auto
  have dm: "?m div 10 < 10" "?m mod 10 < 10" using m by auto
  have c: "10 * (?y div 1000) + ?y div 100 mod 10 = ?y div 100"
    using mult_div_mod_eq [of 10 "?y div 100"] by (simp add: div_mult2_eq [symmetric])
  have b: "10 * (?y div 100) + ?y div 10 mod 10 = ?y div 10"
    using mult_div_mod_eq [of 10 "?y div 10"] by (simp add: div_mult2_eq [symmetric])
  have ny: "nat_of_digits [digit_char (?y div 1000), digit_char (?y div 100 mod 10),
              digit_char (?y div 10 mod 10), digit_char (?y mod 10)] = ?y"
    by (simp add: nat_of_digits_def digit_val_digit_char dy c b)
  have nm: "nat_of_digits [digit_char (?m div 10), digit_char (?m mod 10)] = ?m"
    by (simp add: nat_of_digits_def digit_val_digit_char dm)
  have dig: "list_all is_digit
      [digit_char (?y div 1000), digit_char (?y div 100 mod 10), digit_char (?y div 10 mod 10),
       digit_char (?y mod 10), digit_char (?m div 10), digit_char (?m mod 10)]"
    by (simp add: is_digit_digit_char dy dm)
  show ?thesis
    unfolding period_str_valid [OF assms] to_datetime_label_def
    using m dig by (simp add: ny nm month_start_def)
qed

lemma label_month_period_str: "valid_ts t \<Longrightarrow> label_month (period_str t) = Some (month_start t)"
  by (simp add: label_month_def to_datetime_label_period_str)

lemma period_str_month_start: "period_str (month_start t) = period_str t"
  by (simp add: period_str_def month_start_def)

lemma period_str_eq_iff:
  "valid_ts a \<Longrightarrow> valid_ts b \<Longrightarrow> period_str a = period_str b \<longleftrightarrow> month_start a = month_start b"
  by (metis label_month_period_str option.inject period_str_month_start)

subsection \<open>Lines 108 to 111\<close>

lemma collect_map_Inr: "\<forall>x \<in> set xs. f x = Inr (g x) \<Longrightarrow> collect (map f xs) = Inr (map g xs)"
  by (induction xs) auto

lemma collect_convert_key_snd:
  "collect (map convert_key gs) = Inr table \<Longrightarrow> map snd table = map snd gs"
  by (induction gs arbitrary: table) (auto split: sum.splits)

lemma groupby_size_sum: "counts_sum (groupby_size ks) = length ks"
proof -
  have "counts_sum (groupby_size ks) = sum_list (map (count_list ks) (sort (remdups ks)))"
    by (simp add: counts_sum_def groupby_size_def comp_def)
  also have "\<dots> = sum (count_list ks) (set (sort (remdups ks)))"
    by (rule sum_list_distinct_conv_sum_set) simp
  also have "\<dots> = length ks"
    by (simp add: sum_count_set)
  finally show ?thesis .
qed

lemma monthly_cases_sum:
  assumes "monthly_cases df = Inr (df', mc)"
  shows "counts_sum mc = length (rows df)"
proof -
  from assms obtain labels where l: "collect (map year_month (col_values df ''Opened Date'')) = Inr labels"
    and len: "length labels = length (rows df)"
    by (rule monthly_cases_frame)
  from assms l obtain table where t: "collect (map convert_key (groupby_size labels)) = Inr table"
    and mc: "mc = sort_values table"
    by (auto simp: monthly_cases_def get_col_def split: if_splits sum.splits)
  have "counts_sum mc = counts_sum table"
    by (simp add: mc sort_values_def counts_sum_sort_key)
  also have "\<dots> = counts_sum (groupby_size labels)"
    using collect_convert_key_snd [OF t] by (simp add: counts_sum_def)
  also have "\<dots> = length (rows df)"
    by (simp add: groupby_size_sum len)
  finally show ?thesis .
qed

text \<open>The table of lines 109 and 110 for rows opened at valid timestamps.\<close>

lemma monthly_cases_valid:
  assumes od: "get_col df ''Opened Date'' = Inr (map Date ts)"
    and valid: "\<forall>t \<in> set ts. valid_ts t"
  shows "monthly_cases df =
           Inr (set_col df ''YearMonth'' (map Str (map period_str ts)),
                sort_values
                  (map (\<lambda>k. (label_month k, count_list (map period_str ts) k))
                     (sort (remdups (map period_str ts)))))"
proof -
  let ?labels = "map period_str ts"
  have l: "collect (map year_month (map Date ts)) = Inr ?labels"
    using collect_map_Inr [of "map Date ts" year_month "\<lambda>c. case c of Date t \<Rightarrow> period_str t"]
    by (simp add: comp_def)
  have "convert_key kn = Inr (label_month (fst kn), snd kn)"
    if "kn \<in> set (groupby_size ?labels)" for kn
  proof -
    from that obtain t where t: "t \<in> set ts" and k: "fst kn = period_str t"
      by (auto simp: groupby_size_def)
    from t valid have "to_datetime_label (fst kn) = Inr (Some (month_start t))"
      by (simp add: k to_datetime_label_period_str)
    then show ?thesis by (cases kn) (simp add: label_month_def)
  qed
  then have "collect (map convert_key (groupby_size ?labels)) =
      Inr (map (\<lambda>kn. (label_month (fst kn), snd kn)) (groupby_size ?labels))"
    by (intro collect_map_Inr) blast
  then have t: "collect (map convert_key (groupby_size ?labels)) =
      Inr (map (\<lambda>k. (label_month k, count_list ?labels k)) (sort (remdups ?labels)))"
    by (simp add: groupby_size_def comp_def)
  show ?thesis
    by (simp only: monthly_cases_def od l t sum.case)
qed

lemma na_last_key_inj: "na_last_key a = na_last_key b \<Longrightarrow> a = b"
  by (cases a; cases b) (auto simp: chron_key_def intro: timestamp.expand)

lemma na_last_key_Some_less:
  "na_last_key (Some a) < na_last_key (Some b) \<longleftrightarrow> chron_key a < chron_key b"
  by simp

lemma count_list_map_filter:
  "count_list (map f xs) y = length (filter (\<lambda>x. f x = y) xs)"
  by (induction xs) auto

lemma distinct_map_fst_sort_key:
  "distinct (map fst xs) \<Longrightarrow> distinct (map fst (sort_key f xs))"
  by (simp add: distinct_map)

lemma distinct_map_na_last_key:
  assumes "distinct (map fst xs)"
  shows "distinct (map (\<lambda>kn. na_last_key (fst kn)) xs)"
proof -
  have "inj_on na_last_key (set (map fst xs))"
    by (rule inj_onI) (rule na_last_key_inj)
  with assms have "distinct (map na_last_key (map fst xs))"
    by (simp only: distinct_map simp_thms)
  then show ?thesis by (simp add: comp_def)
qed

lemma monthly_trend_valid:
  assumes valid: "\<forall>t \<in> set ts. valid_ts t"
  shows "spec_monthly_trend ts
           (sort_values
              (map (\<lambda>k. (label_month k, count_list (map period_str ts) k))
                 (sort (remdups (map period_str ts)))))"
proof -
  let ?labels = "map period_str ts"
  let ?table = "map (\<lambda>k. (label_month k, count_list ?labels k)) (sort (remdups ?labels))"
  let ?mc = "sort_values ?table"
  have set_mc: "set ?mc = (\<lambda>k. (label_month k, count_list ?labels k)) ` set ?labels"
    by (simp add: sort_values_def)
  have entry: "\<exists>t \<in> set ts. k = Some (month_start t) \<and> n = count_list ?labels (period_str t)"
    if "(k, n) \<in> set ?mc" for k n
    using that valid unfolding set_mc by (auto simp: label_month_period_str)
  have count: "count_list ?labels (period_str t) = length (filter (\<lambda>u. Some (month_start u) = Some (month_start t)) ts)"
    if "t \<in> set ts" for t
  proof -
    have "filter (\<lambda>u. period_str u = period_str t) ts = filter (\<lambda>u. Some (month_start u) = Some (month_start t)) ts"
      using that valid by (intro filter_cong) (auto simp: period_str_eq_iff)
    then show ?thesis by (simp add: count_list_map_filter)
  qed
  have 1: "\<forall>(k, n) \<in> set ?mc. k \<noteq> None \<and> 0 < n"
  proof clarify
    fix k n assume "(k, n) \<in> set ?mc"
    from entry [OF this] obtain t where t: "t \<in> set ts" and k: "k = Some (month_start t)"
      and n: "n = count_list ?labels (period_str t)" by blast
    from t have "period_str t \<in> set ?labels" by simp
    then have "count_list ?labels (period_str t) \<noteq> 0"
      by (simp only: count_list_0_iff not_not)
    then have "0 < n" unfolding n by simp
    with k show "k \<noteq> None \<and> 0 < n" by simp
  qed
  have inj: "inj_on label_month (set ?labels)"
  proof (rule inj_onI)
    fix a b assume "a \<in> set ?labels" "b \<in> set ?labels" and eq: "label_month a = label_month b"
    then obtain t u where t: "t \<in> set ts" "a = period_str t" and u: "u \<in> set ts" "b = period_str u"
      by auto
    with eq valid have "month_start t = month_start u" by (simp add: label_month_period_str)
    with t u valid show "a = b" by (simp add: period_str_eq_iff)
  qed
  have "distinct (map label_month (sort (remdups ?labels)))"
    using inj by (simp add: distinct_map)
  then have dk: "distinct (map fst ?table)" by (simp add: comp_def)
  then have "distinct (map fst ?mc)"
    unfolding sort_values_def by (rule distinct_map_fst_sort_key)
  then have "distinct (map (\<lambda>kn. na_last_key (fst kn)) ?mc)"
    by (rule distinct_map_na_last_key)
  moreover have "sorted (map (\<lambda>kn. na_last_key (fst kn)) ?mc)"
    using sorted_sort_key [of "\<lambda>(k, n). na_last_key k" ?table]
    by (simp add: sort_values_def case_prod_unfold)
  ultimately have "sorted_wrt (<) (map (\<lambda>kn. na_last_key (fst kn)) ?mc)"
    by (simp add: strict_sorted_iff)
  then have "sorted_wrt (\<lambda>a b. na_last_key a < na_last_key b) (map fst ?mc)"
    by (simp add: sorted_wrt_map)
  then have 2: "sorted_wrt (\<lambda>a b. chron_key (the a) < chron_key (the b)) (map fst ?mc)"
  proof (rule sorted_wrt_mono_rel [rotated])
    fix a b assume "a \<in> set (map fst ?mc)" "b \<in> set (map fst ?mc)" and less: "na_last_key a < na_last_key b"
    with 1 obtain x y where "a = Some x" "b = Some y" by fastforce
    with less show "chron_key (the a) < chron_key (the b)" by simp
  qed
  have 3: "fst ` set ?mc = (\<lambda>t. Some (month_start t)) ` set ts"
    using valid unfolding set_mc by (force simp: image_image label_month_period_str)
  have 4: "\<forall>(k, n) \<in> set ?mc. n = length (filter (\<lambda>t. Some (month_start t) = k) ts)"
  proof clarify
    fix k n assume "(k, n) \<in> set ?mc"
    from entry [OF this] obtain t where t: "t \<in> set ts" and k: "k = Some (month_start t)"
      and n: "n = count_list ?labels (period_str t)" by blast
    show "n = length (filter (\<lambda>t. Some (month_start t) = k) ts)"
      unfolding n k by (rule count [OF t])
  qed
  show ?thesis unfolding spec_monthly_trend_def by (intro conjI 1 2 3 4)
qed

lemma all_dates_map:
  assumes "\<forall>v \<in> set vs. \<exists>t. v = Date t"
  shows "\<exists>ts. vs = map Date ts"
proof -
  have "vs = map Date (map (\<lambda>v. case v of Date t \<Rightarrow> t) vs)"
    using assms by (induction vs) auto
  then show ?thesis ..
qed

lemma cleaned_opened_dates:
  assumes "wf_frame raw" and "clean parse raw = Inr (df, notes)"
  shows "\<exists>ts. get_col df ''Opened Date'' = Inr (map Date ts) \<and>
              (dates_valid df \<longrightarrow> (\<forall>t \<in> set ts. valid_ts t))"
proof -
  note I = clean_invariants [OF assms]
  from all_dates_map [OF I(3)] obtain ts where ts: "col_values df ''Opened Date'' = map Date ts" ..
  with I(2) have "get_col df ''Opened Date'' = Inr (map Date ts)" by (simp add: get_col_def)
  moreover have "dates_valid df \<longrightarrow> (\<forall>t \<in> set ts. valid_ts t)"
    by (simp add: dates_valid_def ts list_all_iff)
  ultimately show ?thesis by blast
qed

subsection \<open>The example\<close>

lemma sample_table_wf: "wf_frame sample_table"
  by code_simp

lemma sample_table_clean:
  "clean sample_parse sample_table =
     Inr (sample_cleaned,
          [''Dropped 'Store' column due to all null values.'', ''Removed 1 duplicate rows.''])"
  by code_simp

lemma sample_table_dated: "parse_opened_date sample_parse sample_table = Inr sample_dated"
  by code_simp

lemma sample_table_load:
  "load_and_clean_data sample_parse (Inr sample_table) =
     ([SidebarInfo ''Dropped 'Store' column due to all null values.'',
       SidebarInfo ''Removed 1 duplicate rows.''], Inr sample_cleaned)"
  by code_simp

lemma sample_cleaned_wf: "wf_frame sample_cleaned"
  by code_simp

lemma sample_cleaned_aggregations: "snd (aggregations sample_cleaned) = Inr sample_after"
  by code_simp

lemma sample_status_counts: "status_counts sample_cleaned = Inr [(Str ''Closed'', 2)]"
  by code_simp

lemma sample_origin_counts:
  "origin_counts sample_cleaned = Inr [(Str ''Email'', 2), (Str ''Phone'', 1)]"
  by code_simp

lemma sample_top_brands:
  "top_brands sample_cleaned = Inr [(Str ''Knorr'', 2), (Str ''Pepsodent'', 1)]"
  by code_simp

lemma sample_top_reasons:
  "top_reasons sample_cleaned = Inr [(Str ''Queries'', 2), (Str ''Others'', 1)]"
  by code_simp

lemma sample_dates_valid: "dates_valid sample_cleaned"
  by code_simp

lemma sample_monthly_cases:
  "monthly_cases sample_cleaned =
     Inr (sample_after, [(Some (Timestamp 2024 1 0), 2), (Some (Timestamp 2024 2 0), 1)])"
  by code_simp

section \<open>The cleaned dataset\<close>

text \<open>
  Claim C5. Every row of the cleaned dataset has an opened date that is a timestamp, and
  a row whose opened date does not parse is gone as a whole: the cleaned dataset has at
  most as many rows as the table has rows with a date that parses.
\<close>

theorem cleaned_rows_have_opened_date:
  assumes "wf_frame df" and "clean parse df = Inr (df', notes)"
  shows "(\<exists>ts. get_col df' ''Opened Date'' = Inr (map Date ts)) \<and>
         length (rows df') \<le>
           length (filter (\<lambda>v. to_datetime_coerce parse v \<noteq> NA) (col_values df ''Opened Date''))"
proof
  note I = clean_invariants [OF assms]
  from all_dates_map [OF I(3)]
  obtain ts where "col_values df' ''Opened Date'' = map Date ts" by blast
  with I(2) show "\<exists>ts. get_col df' ''Opened Date'' = Inr (map Date ts)"
    by (auto simp: get_col_def)
next
  from assms(2) obtain df1 where p: "parse_opened_date parse df = Inr df1"
    and df': "df' = drop_duplicates (fst (drop_store df1))"
    by (rule clean_stages)
  obtain df2 n1 where ds: "drop_store df1 = (df2, n1)" by (cases "drop_store df1")
  note P = parse_opened_date_props [OF assms(1) p]
  note D = drop_store_props [OF P(2) ds]
  have "length (rows df') \<le> length (rows df2)"
    using df' ds drop_duplicates_props(7) [of df2] by simp
  with D(2) P(5) show "length (rows df') \<le>
           length (filter (\<lambda>v. to_datetime_coerce parse v \<noteq> NA) (col_values df ''Opened Date''))"
    by simp
qed

theorem cleaned_rows_have_opened_date_witness:
  "wf_frame sample_table \<and>
   clean sample_parse sample_table =
     Inr (sample_cleaned,
          [''Dropped 'Store' column due to all null values.'', ''Removed 1 duplicate rows.'']) \<and>
   (\<exists>ts. get_col sample_cleaned ''Opened Date'' = Inr (map Date ts)) \<and>
   length (rows sample_cleaned) \<le>
     length (filter (\<lambda>v. to_datetime_coerce sample_parse v \<noteq> NA)
               (col_values sample_table ''Opened Date''))"
  using cleaned_rows_have_opened_date [OF sample_table_wf sample_table_clean]
    sample_table_wf sample_table_clean
  by simp

text \<open>
  Claim C7. Cleaning is idempotent: the cleaning pass on a cleaned dataset returns the
  same dataset, so the same rows; it finds nothing to remove.
\<close>

theorem clean_idempotent:
  assumes "wf_frame df" and "clean parse df = Inr (df', notes)"
  shows "clean parse df' = Inr (df', [''No duplicate rows found.''])"
proof -
  note I = clean_invariants [OF assms]
  let ?i = "index_of ''Opened Date'' (columns df')"
  have dates: "\<forall>r \<in> set (rows df'). \<exists>t. r ! ?i = Date t"
    using I(3) by (auto simp: col_values_def)
  then have "map (\<lambda>r. r[?i := to_datetime_coerce parse (r ! ?i)]) (rows df') = rows df'"
    by (intro map_idI) (metis to_datetime_coerce.simps(2) list_update_id)
  moreover have "filter (\<lambda>r. r ! ?i \<noteq> NA) (rows df') = rows df'"
    using dates by (intro filter_True) auto
  ultimately have p: "parse_opened_date parse df' = Inr df'"
    using parse_opened_date_eq [OF I(2), of parse] by simp
  have s: "drop_store df' = (df', [])"
    using I(5) by (auto simp: drop_store_def)
  have r: "remove_duplicates df' = (df', [''No duplicate rows found.''])"
    using I(4) by (simp add: remove_duplicates_def Let_def drop_duplicates_id)
  show ?thesis by (simp add: clean_def p s r)
qed

theorem clean_idempotent_witness:
  "wf_frame sample_table \<and>
   clean sample_parse sample_table =
     Inr (sample_cleaned,
          [''Dropped 'Store' column due to all null values.'', ''Removed 1 duplicate rows.'']) \<and>
   clean sample_parse sample_cleaned = Inr (sample_cleaned, [''No duplicate rows found.''])"
  using clean_idempotent [OF sample_table_wf sample_table_clean]
    sample_table_wf sample_table_clean
  by simp

text \<open>
  Claim C6. The cleaned dataset has no two equal rows, every row present before lines 26
  to 32 is still there once, and the sidebar is told how many rows went: the number,
  when rows were removed, and that none were found otherwise.
\<close>

theorem duplicates_removed_and_reported:
  assumes "parse_opened_date parse df = Inr df1"
    and "load_and_clean_data parse (Inr df) = (es, Inr df')"
  shows "distinct (rows df') \<and>
         set (rows df') = set (rows (fst (drop_store df1))) \<and>
         SidebarInfo
           (if length (rows df') < length (rows df1)
            then ''Removed '' @ str_nat (length (rows df1) - length (rows df')) @ '' duplicate rows.''
            else ''No duplicate rows found.'') \<in> set es"
proof -
  from assms(2) obtain ns where cl: "clean parse df = Inr (df', ns)"
    and es: "es = map SidebarInfo ns"
    by (rule load_and_clean_data_Inr)
  from cl obtain d where p: "parse_opened_date parse df = Inr d"
    and df': "df' = drop_duplicates (fst (drop_store d))"
    and ns: "ns = snd (drop_store d) @ snd (remove_duplicates (fst (drop_store d)))"
    by (rule clean_stages)
  from p assms(1) have d: "d = df1" by simp
  let ?df2 = "fst (drop_store df1)"
  have len: "length (rows ?df2) = length (rows df1)" by (rule length_rows_fst_drop_store)
  have 1: "distinct (rows df')" unfolding df' by (rule drop_duplicates_props)
  have 2: "set (rows df') = set (rows ?df2)" unfolding df' d by (rule drop_duplicates_props)
  have "(if length (rows df') < length (rows df1)
            then ''Removed '' @ str_nat (length (rows df1) - length (rows df')) @ '' duplicate rows.''
            else ''No duplicate rows found.'') \<in> set ns"
    unfolding ns d snd_remove_duplicates len df' by simp
  then have 3: "SidebarInfo
           (if length (rows df') < length (rows df1)
            then ''Removed '' @ str_nat (length (rows df1) - length (rows df')) @ '' duplicate rows.''
            else ''No duplicate rows found.'') \<in> set es"
    unfolding es set_map by (rule imageI)
  from 1 2 3 show ?thesis by blast
qed

theorem duplicates_removed_and_reported_witness:
  "parse_opened_date sample_parse sample_table = Inr sample_dated \<and>
   load_and_clean_data sample_parse (Inr sample_table) =
     ([SidebarInfo ''Dropped 'Store' column due to all null values.'',
       SidebarInfo ''Removed 1 duplicate rows.''], Inr sample_cleaned) \<and>
   distinct (rows sample_cleaned) \<and>
   set (rows sample_cleaned) = set (rows (fst (drop_store sample_dated))) \<and>
   length (rows sample_dated) - length (rows sample_cleaned) = 1"
proof -
  have "length (rows sample_dated) - length (rows sample_cleaned) = 1"
    by (simp add: sample_dated_def sample_cleaned_def)
  with duplicates_removed_and_reported [OF sample_table_dated sample_table_load]
    sample_table_dated sample_table_load
  show ?thesis by blast
qed

text \<open>
  Claim C2, as the code has it. Lines 21 to 23 look at the one column named
  \<^verbatim>\<open>Store\<close>: it is removed exactly when it is there and all its values are absent in
  the rows that lines 17 and 18 left. Every other column stays, whatever it holds. If
  \<^verbatim>\<open>Store\<close> is still a column of the cleaned dataset, one of its values is present.
\<close>

theorem only_store_is_pruned:
  assumes "wf_frame df" and "parse_opened_date parse df = Inr df1"
    and "clean parse df = Inr (df', notes)"
  shows "columns df' =
           (if ''Store'' \<in> set (columns df) \<and> isnull_all (col_values df1 ''Store'')
            then remove1 ''Store'' (columns df) else columns df) \<and>
         (''Store'' \<in> set (columns df') \<longrightarrow> \<not> isnull_all (col_values df' ''Store''))"
proof -
  from assms(3) obtain d where p: "parse_opened_date parse df = Inr d"
    and df': "df' = drop_duplicates (fst (drop_store d))"
    by (rule clean_stages)
  from p assms(2) have d: "d = df1" by simp
  obtain df2 n1 where ds: "drop_store df1 = (df2, n1)" by (cases "drop_store df1")
  note P = parse_opened_date_props [OF assms(1,2)]
  note D = drop_store_props [OF P(2) ds]
  have "columns df' = columns df2" using df' d ds by (simp add: drop_duplicates_props)
  with D(7) P(1) have 1: "columns df' =
           (if ''Store'' \<in> set (columns df) \<and> isnull_all (col_values df1 ''Store'')
            then remove1 ''Store'' (columns df) else columns df)" by simp
  from clean_invariants(5) [OF assms(1,3)]
  have 2: "''Store'' \<in> set (columns df') \<longrightarrow> \<not> isnull_all (col_values df' ''Store'')" by blast
  from 1 2 show ?thesis ..
qed

theorem only_store_is_pruned_witness:
  "wf_frame sample_table \<and>
   parse_opened_date sample_parse sample_table = Inr sample_dated \<and>
   clean sample_parse sample_table = Inr (sample_cleaned, [''Dropped 'Store' column due to all null values.'', ''Removed 1 duplicate rows.'']) \<and>
   columns sample_cleaned = remove1 ''Store'' (columns sample_table)"
proof -
  have "''Store'' \<in> set (columns sample_table) \<and> isnull_all (col_values sample_dated ''Store'')"
    by code_simp
  with only_store_is_pruned [OF sample_table_wf sample_table_dated sample_table_clean]
    sample_table_wf sample_table_dated sample_table_clean
  show ?thesis by simp
qed

text \<open>
  Claim C2 as written fails: the column \<^verbatim>\<open>Notes\<close> of the example is absent in every
  row and is still a column of the cleaned dataset.
\<close>

theorem all_absent_column_kept_counterexample:
  "clean sample_parse sample_table =
     Inr (sample_cleaned,
          [''Dropped 'Store' column due to all null values.'', ''Removed 1 duplicate rows.'']) \<and>
   rows sample_cleaned \<noteq> [] \<and>
   ''Notes'' \<in> set (columns sample_cleaned) \<and>
   isnull_all (col_values sample_cleaned ''Notes'')"
  by code_simp

section \<open>The run\<close>

text \<open>
  Claim C9, as the code has it. When \<^verbatim>\<open>read_csv\<close> raises \<^verbatim>\<open>FileNotFoundError\<close>, the
  page holds the one error message and the run stops there. Any other exception of
  \<^verbatim>\<open>read_csv\<close> is not caught: the run ends with it and the script has put nothing on
  the page. Either way no chart is shown.
\<close>

theorem read_failure_halts:
  "script parse (Inl e) =
     (if e = FileNotFoundError
      then ([StError ''Error: 'data.csv' not found. Please make sure the file is in the same directory as the Streamlit app.''],
            Inl Stop)
      else ([], Inl (Uncaught e))) \<and>
   filter is_chart (fst (script parse (Inl e))) = []"
  by (simp add: script_def and_then_def load_and_clean_data_def is_chart_def)

theorem read_failure_halts_witness:
  "script sample_parse (Inl FileNotFoundError) =
     ([StError ''Error: 'data.csv' not found. Please make sure the file is in the same directory as the Streamlit app.''],
      Inl Stop) \<and>
   filter is_chart (fst (script sample_parse (Inl FileNotFoundError))) = []"
  using read_failure_halts [of sample_parse FileNotFoundError] by (simp add: is_chart_def)

text \<open>
  Claim C9 as written fails for a file that is there and cannot be read: the script
  shows no error message.
\<close>

theorem unreadable_file_no_message_counterexample:
  "script sample_parse (Inl PermissionError) = ([], Inl (Uncaught PermissionError)) \<and>
   filter is_error (fst (script sample_parse (Inl PermissionError))) = []"
  by (simp add: script_def and_then_def load_and_clean_data_def)

text \<open>
  Claim C1, as the code has it. Sections 1 to 4 hand the frame on as it is. Line 108
  assigns the column \<^verbatim>\<open>YearMonth\<close> of the frame: after the five aggregations the frame
  has that column (as its last one, unless the table had one of that name), holding
  the label of each row's month, and the same number of rows; every other column holds
  what it held.
\<close>

theorem aggregations_assign_year_month_only:
  assumes "wf_frame df" and "aggregations df = (es, Inr df')"
  shows "snd (bar_section h1 status_counts df) = Inr df \<and>
         snd (bar_section h2 origin_counts df) = Inr df \<and>
         snd (bar_section h3 top_brands df) = Inr df \<and>
         snd (bar_section h4 top_reasons df) = Inr df \<and>
         columns df' = (if ''YearMonth'' \<in> set (columns df) then columns df
                        else columns df @ [''YearMonth'']) \<and>
         length (rows df') = length (rows df) \<and>
         (\<forall>c \<in> set (columns df). c \<noteq> ''YearMonth'' \<longrightarrow> get_col df' c = get_col df c) \<and>
         (\<exists>labels. collect (map year_month (col_values df ''Opened Date'')) = Inr labels \<and>
                   get_col df' ''YearMonth'' = Inr (map Str labels))"
proof -
  from assms(2) obtain sc oc tb tr mc where a: "status_counts df = Inr sc" "origin_counts df = Inr oc"
    "top_brands df = Inr tb" "top_reasons df = Inr tr" and m: "monthly_cases df = Inr (df', mc)"
    by (rule aggregations_Inr)
  from m obtain labels where l: "collect (map year_month (col_values df ''Opened Date'')) = Inr labels"
    and d: "df' = set_col df ''YearMonth'' (map Str labels)"
    and len: "length labels = length (rows df)"
    by (rule monthly_cases_frame)
  have len': "length (map Str labels) = length (rows df)" using len by simp
  have 1: "snd (bar_section h1 status_counts df) = Inr df" "snd (bar_section h2 origin_counts df) = Inr df"
    "snd (bar_section h3 top_brands df) = Inr df" "snd (bar_section h4 top_reasons df) = Inr df"
    using a by (simp_all add: bar_section_def)
  have 2: "columns df' = (if ''YearMonth'' \<in> set (columns df) then columns df
                        else columns df @ [''YearMonth''])"
    unfolding d by (rule columns_set_col)
  have 3: "length (rows df') = length (rows df)"
    unfolding d using len' by (rule length_rows_set_col)
  have 4: "\<forall>c \<in> set (columns df). c \<noteq> ''YearMonth'' \<longrightarrow> get_col df' c = get_col df c"
  proof (intro ballI impI)
    fix c assume c: "c \<in> set (columns df)" and ne: "c \<noteq> ''YearMonth''"
    have "col_values df' c = col_values df c"
      unfolding d using assms(1) len' c ne by (rule col_values_set_col_other)
    moreover have "c \<in> set (columns df')" using c by (simp add: 2)
    ultimately show "get_col df' c = get_col df c" using c by (simp add: get_col_def)
  qed
  have "col_values df' ''YearMonth'' = map Str labels"
    unfolding d using assms(1) len' by (rule col_values_set_col_same)
  moreover have "''YearMonth'' \<in> set (columns df')" by (simp add: 2)
  ultimately have "get_col df' ''YearMonth'' = Inr (map Str labels)" by (simp add: get_col_def)
  with l have 5: "\<exists>labels. collect (map year_month (col_values df ''Opened Date'')) = Inr labels \<and>
                   get_col df' ''YearMonth'' = Inr (map Str labels)" by blast
  from 1 2 3 4 5 show ?thesis by blast
qed

theorem aggregations_assign_year_month_only_witness:
  "wf_frame sample_cleaned \<and>
   aggregations sample_cleaned = (fst (aggregations sample_cleaned), Inr sample_after) \<and>
   columns sample_after = columns sample_cleaned @ [''YearMonth''] \<and>
   length (rows sample_after) = length (rows sample_cleaned) \<and>
   get_col sample_after ''Status'' = get_col sample_cleaned ''Status''"
proof -
  have a: "aggregations sample_cleaned = (fst (aggregations sample_cleaned), Inr sample_after)"
    using sample_cleaned_aggregations by (metis prod.collapse)
  have "''YearMonth'' \<notin> set (columns sample_cleaned)" "''Status'' \<in> set (columns sample_cleaned)"
    by (simp_all add: sample_cleaned_def)
  with aggregations_assign_year_month_only [OF sample_cleaned_wf a] sample_cleaned_wf a
  show ?thesis by simp
qed

text \<open>
  Claim C1 as written fails: after the five aggregations the frame of the example is
  not the frame the cleaner returned.
\<close>

theorem aggregations_change_frame_counterexample:
  "clean sample_parse sample_table = Inr (sample_cleaned, [''Dropped 'Store' column due to all null values.'', ''Removed 1 duplicate rows.'']) \<and>
   snd (aggregations sample_cleaned) = Inr sample_after \<and>
   sample_after \<noteq> sample_cleaned"
  by code_simp

section \<open>The frequency tables\<close>

text \<open>
  Claim C3, as the code has it. \<^verbatim>\<open>value_counts\<close> does not count absent values: the
  counts of the status table sum to the number of rows whose status is present, and
  likewise for the origin; the sum is the number of rows of the dataset when no value
  of the column is absent, and never more. The sums of the two top-10 tables are at
  most the number of rows.
\<close>

theorem frequency_totals:
  assumes "status_counts df = Inr sc" and "origin_counts df = Inr oc"
    and "top_brands df = Inr tb" and "top_reasons df = Inr tr"
  shows "counts_sum sc = length (filter (\<lambda>v. v \<noteq> NA) (col_values df ''Status'')) \<and>
         counts_sum oc = length (filter (\<lambda>v. v \<noteq> NA) (col_values df ''Case Origin'')) \<and>
         (NA \<notin> set (col_values df ''Status'') \<longrightarrow> counts_sum sc = length (rows df)) \<and>
         (NA \<notin> set (col_values df ''Case Origin'') \<longrightarrow> counts_sum oc = length (rows df)) \<and>
         counts_sum sc \<le> length (rows df) \<and> counts_sum oc \<le> length (rows df) \<and>
         counts_sum tb \<le> length (rows df) \<and> counts_sum tr \<le> length (rows df)"
proof -
  have sc: "sc = value_counts (col_values df ''Status'')"
    using assms(1) by (auto simp: status_counts_def get_col_def split: if_splits)
  have oc: "oc = value_counts (col_values df ''Case Origin'')"
    using assms(2) by (auto simp: origin_counts_def get_col_def split: if_splits)
  have tb: "tb = take 10 (value_counts (col_values df ''Product: Brand''))"
    using assms(3) by (auto simp: top_brands_def get_col_def split: if_splits)
  have tr: "tr = take 10 (value_counts (col_values df ''Reason L1 desc''))"
    using assms(4) by (auto simp: top_reasons_def get_col_def split: if_splits)
  have 1: "counts_sum sc = length (filter (\<lambda>v. v \<noteq> NA) (col_values df ''Status''))"
    unfolding sc by (rule value_counts_total)
  have 2: "counts_sum oc = length (filter (\<lambda>v. v \<noteq> NA) (col_values df ''Case Origin''))"
    unfolding oc by (rule value_counts_total)
  have full: "length (filter (\<lambda>v. v \<noteq> NA) vs) = length vs" if "NA \<notin> set vs" for vs :: "cell list"
    using that by (induction vs) auto
  have 3: "NA \<notin> set (col_values df ''Status'') \<longrightarrow> counts_sum sc = length (rows df)"
    using full [of "col_values df ''Status''"] by (auto simp: 1) (simp add: col_values_def)
  have 4: "NA \<notin> set (col_values df ''Case Origin'') \<longrightarrow> counts_sum oc = length (rows df)"
    using full [of "col_values df ''Case Origin''"] by (auto simp: 2) (simp add: col_values_def)
  have 5: "counts_sum sc \<le> length (rows df)" unfolding 1 by (rule length_filter_col_le)
  have 6: "counts_sum oc \<le> length (rows df)" unfolding 2 by (rule length_filter_col_le)
  have "counts_sum tb \<le> counts_sum (value_counts (col_values df ''Product: Brand''))"
    unfolding tb by (rule counts_sum_take_le)
  then have 7: "counts_sum tb \<le> length (rows df)"
    using length_filter_col_le [of "\<lambda>v. v \<noteq> NA" df "''Product: Brand''"]
    by (simp add: value_counts_total)
  have "counts_sum tr \<le> counts_sum (value_counts (col_values df ''Reason L1 desc''))"
    unfolding tr by (rule counts_sum_take_le)
  then have 8: "counts_sum tr \<le> length (rows df)"
    using length_filter_col_le [of "\<lambda>v. v \<noteq> NA" df "''Reason L1 desc''"]
    by (simp add: value_counts_total)
  from 1 2 3 4 5 6 7 8 show ?thesis by blast
qed

theorem frequency_totals_witness:
  "status_counts sample_cleaned = Inr [(Str ''Closed'', 2)] \<and>
   origin_counts sample_cleaned = Inr [(Str ''Email'', 2), (Str ''Phone'', 1)] \<and>
   top_brands sample_cleaned = Inr [(Str ''Knorr'', 2), (Str ''Pepsodent'', 1)] \<and>
   top_reasons sample_cleaned = Inr [(Str ''Queries'', 2), (Str ''Others'', 1)] \<and>
   NA \<notin> set (col_values sample_cleaned ''Case Origin'') \<and>
   counts_sum [(Str ''Email'', 2), (Str ''Phone'', 1)] = length (rows sample_cleaned) \<and>
   counts_sum [(Str ''Closed'', 2)] \<le> length (rows sample_cleaned) \<and>
   counts_sum [(Str ''Knorr'', 2), (Str ''Pepsodent'', 1)] \<le> length (rows sample_cleaned)"
proof -
  have "NA \<notin> set (col_values sample_cleaned ''Case Origin'')"
    by code_simp
  with frequency_totals [OF sample_status_counts sample_origin_counts sample_top_brands
      sample_top_reasons]
    sample_status_counts sample_origin_counts sample_top_brands sample_top_reasons
  show ?thesis by blast
qed

text \<open>
  Claim C3 as written fails: one row of the cleaned example has no status, and the
  counts of the status table sum to 2, not to the 3 rows of the dataset.
\<close>

theorem status_counts_sum_counterexample:
  "clean sample_parse sample_table = Inr (sample_cleaned, [''Dropped 'Store' column due to all null values.'', ''Removed 1 duplicate rows.'']) \<and>
   status_counts sample_cleaned = Inr [(Str ''Closed'', 2)] \<and>
   counts_sum [(Str ''Closed'', 2::nat)] \<noteq> length (rows sample_cleaned)"
  by code_simp

text \<open>
  Claim C4. The status and origin tables hold one pair for every distinct value that
  occurs in their column, with its number of rows; the brand and reason tables hold at
  most 10 pairs, in descending order of count, and no value left out has a higher count
  than a value that is in.
\<close>

theorem frequency_tables_full_and_top_ten:
  assumes "status_counts df = Inr sc" and "origin_counts df = Inr oc"
    and "top_brands df = Inr tb" and "top_reasons df = Inr tr"
  shows "spec_frequency_table (col_values df ''Status'') sc \<and>
         spec_frequency_table (col_values df ''Case Origin'') oc \<and>
         spec_top 10 (col_values df ''Product: Brand'') tb \<and>
         spec_top 10 (col_values df ''Reason L1 desc'') tr"
proof -
  have sc: "sc = value_counts (col_values df ''Status'')"
    using assms(1) by (auto simp: status_counts_def get_col_def split: if_splits)
  have oc: "oc = value_counts (col_values df ''Case Origin'')"
    using assms(2) by (auto simp: origin_counts_def get_col_def split: if_splits)
  have tb: "tb = take 10 (value_counts (col_values df ''Product: Brand''))"
    using assms(3) by (auto simp: top_brands_def get_col_def split: if_splits)
  have tr: "tr = take 10 (value_counts (col_values df ''Reason L1 desc''))"
    using assms(4) by (auto simp: top_reasons_def get_col_def split: if_splits)
  show ?thesis
    unfolding sc oc tb tr
    by (intro conjI value_counts_frequency_table value_counts_top)
qed

theorem frequency_tables_full_and_top_ten_witness:
  "status_counts sample_cleaned = Inr [(Str ''Closed'', 2)] \<and>
   origin_counts sample_cleaned = Inr [(Str ''Email'', 2), (Str ''Phone'', 1)] \<and>
   top_brands sample_cleaned = Inr [(Str ''Knorr'', 2), (Str ''Pepsodent'', 1)] \<and>
   top_reasons sample_cleaned = Inr [(Str ''Queries'', 2), (Str ''Others'', 1)] \<and>
   spec_frequency_table (col_values sample_cleaned ''Status'') [(Str ''Closed'', 2)] \<and>
   spec_frequency_table (col_values sample_cleaned ''Case Origin'')
     [(Str ''Email'', 2), (Str ''Phone'', 1)] \<and>
   spec_top 10 (col_values sample_cleaned ''Product: Brand'')
     [(Str ''Knorr'', 2), (Str ''Pepsodent'', 1)] \<and>
   spec_top 10 (col_values sample_cleaned ''Reason L1 desc'')
     [(Str ''Queries'', 2), (Str ''Others'', 1)]"
  using frequency_tables_full_and_top_ten [OF sample_status_counts sample_origin_counts
      sample_top_brands sample_top_reasons]
    sample_status_counts sample_origin_counts sample_top_brands sample_top_reasons
  by blast

section \<open>The monthly trend\<close>

text \<open>
  Claim C8. On a cleaned dataset whose opened dates are timestamps pandas can hold,
  lines 108 to 111 return a table: its keys are months and increase strictly in time,
  its counts are positive, its months are exactly the months in which a row was opened,
  and the count of a month is the number of rows opened in it.
\<close>

theorem monthly_trend_of_cleaned:
  assumes "wf_frame raw" and "clean parse raw = Inr (df, notes)" and "dates_valid df"
  shows "\<exists>ts df' mc. get_col df ''Opened Date'' = Inr (map Date ts) \<and>
           monthly_cases df = Inr (df', mc) \<and> spec_monthly_trend ts mc"
proof -
  from cleaned_opened_dates [OF assms(1,2)]
  obtain ts where od: "get_col df ''Opened Date'' = Inr (map Date ts)"
    and v: "dates_valid df \<longrightarrow> (\<forall>t \<in> set ts. valid_ts t)"
    by blast
  from v assms(3) have valid: "\<forall>t \<in> set ts. valid_ts t" by blast
  from monthly_cases_valid [OF od valid] monthly_trend_valid [OF valid] od
  show ?thesis by blast
qed

theorem monthly_trend_of_cleaned_witness:
  "wf_frame sample_table \<and>
   clean sample_parse sample_table =
     Inr (sample_cleaned,
          [''Dropped 'Store' column due to all null values.'', ''Removed 1 duplicate rows.'']) \<and>
   dates_valid sample_cleaned \<and>
   monthly_cases sample_cleaned =
     Inr (sample_after, [(Some (Timestamp 2024 1 0), 2), (Some (Timestamp 2024 2 0), 1)]) \<and>
   (\<exists>ts df' mc. get_col sample_cleaned ''Opened Date'' = Inr (map Date ts) \<and>
      monthly_cases sample_cleaned = Inr (df', mc) \<and> spec_monthly_trend ts mc)"
  using monthly_trend_of_cleaned [OF sample_table_wf sample_table_clean sample_dates_valid]
    sample_table_wf sample_table_clean sample_dates_valid sample_monthly_cases
  by blast

text \<open>
  Claim C10. The counts of the monthly table sum to the number of rows of the cleaned
  dataset, whenever lines 108 to 111 return a table; and they do return one when the
  opened dates are timestamps pandas can hold.
\<close>

theorem monthly_counts_sum_to_rows:
  assumes "wf_frame raw" and "clean parse raw = Inr (df, notes)"
  shows "(\<forall>df' mc. monthly_cases df = Inr (df', mc) \<longrightarrow> counts_sum mc = length (rows df)) \<and>
         (dates_valid df \<longrightarrow> (\<exists>df' mc. monthly_cases df = Inr (df', mc)))"
proof
  show "\<forall>df' mc. monthly_cases df = Inr (df', mc) \<longrightarrow> counts_sum mc = length (rows df)"
    by (blast intro: monthly_cases_sum)
next
  from cleaned_opened_dates [OF assms]
  obtain ts where od: "get_col df ''Opened Date'' = Inr (map Date ts)"
    and v: "dates_valid df \<longrightarrow> (\<forall>t \<in> set ts. valid_ts t)"
    by blast
  show "dates_valid df \<longrightarrow> (\<exists>df' mc. monthly_cases df = Inr (df', mc))"
  proof
    assume "dates_valid df"
    with v have "\<forall>t \<in> set ts. valid_ts t" by blast
    from monthly_cases_valid [OF od this] show "\<exists>df' mc. monthly_cases df = Inr (df', mc)" by blast
  qed
qed

theorem monthly_counts_sum_to_rows_witness:
  "wf_frame sample_table \<and>
   clean sample_parse sample_table =
     Inr (sample_cleaned,
          [''Dropped 'Store' column due to all null values.'', ''Removed 1 duplicate rows.'']) \<and>
   dates_valid sample_cleaned \<and>
   monthly_cases sample_cleaned =
     Inr (sample_after, [(Some (Timestamp 2024 1 0), 2), (Some (Timestamp 2024 2 0), 1)]) \<and>
   counts_sum [(Some (Timestamp 2024 1 0), 2), (Some (Timestamp 2024 2 0), 1)] =
     length (rows sample_cleaned)"
  using monthly_counts_sum_to_rows [OF sample_table_wf sample_table_clean]
    sample_table_wf sample_table_clean sample_dates_valid sample_monthly_cases
  by blast

end
